theory Spec2Isabelle
  imports Main "HOL-Library.Sublist" "HOL-Library.Multiset" "HOL-Library.Extended_Nat"
begin

section \<open>Data model (models.py)\<close>

text \<open>
  \<^verbatim>\<open>TaskStatus\<close> is the enumeration of models.py. A \<^verbatim>\<open>Task\<close> is the dataclass with its
  seven fields; \<^verbatim>\<open>created_at\<close> is a timestamp, kept as a number. An \<^verbatim>\<open>ExecutionPlan\<close> has the
  fields the planner fills in (its lookup \<^verbatim>\<open>tasks\<close> is the field \<open>plan_tasks\<close>);
  \<^verbatim>\<open>generated_at\<close> is read from the clock and is left out.
\<close>

datatype TaskStatus = PENDING | RUNNING | COMPLETED | FAILED

record Task =
  task_id :: string
  name :: string
  description :: string
  dependencies :: "string list"
  priority :: int
  status :: TaskStatus
  created_at :: nat

record ExecutionPlan =
  execution_order :: "string list"
  is_valid :: bool
  error_message :: string
  plan_tasks :: "string \<rightharpoonup> Task"

text \<open>The exceptions of the Python runtime that the modelled code can meet.\<close>

datatype exn = IndexError | KeyError | TypeError | AttributeError | ClientError

section \<open>Plan construction: \<^verbatim>\<open>_topological_sort\<close> (ai\_planner.py)\<close>

text \<open>
  A prerequisite relation is the dictionary \<^verbatim>\<open>Dict[int, Set[int]]\<close> whose keys are
  \<^verbatim>\<open>0 .. N-1\<close> in insertion order, which is how both resolvers build it. It is the list of
  its values; each value, a Python set, is the list of its elements in the order in which
  the interpreter iterates over the set.
\<close>

type_synonym relation = "nat list list"

text \<open>The inner loop \<^verbatim>\<open>for prereq in prereqs: adjacency[prereq].append(task_idx)\<close>.\<close>

fun add_edges :: "nat \<Rightarrow> nat list \<Rightarrow> nat list list \<Rightarrow> exn + nat list list" where
  "add_edges task_idx [] adjacency = Inr adjacency"
| "add_edges task_idx (prereq # prereqs) adjacency =
     (if prereq < length adjacency
      then add_edges task_idx prereqs (adjacency[prereq := adjacency ! prereq @ [task_idx]])
      else Inl KeyError)"

text \<open>The loop over \<^verbatim>\<open>dependencies.items()\<close> that fills \<^verbatim>\<open>in_degree\<close> and \<^verbatim>\<open>adjacency\<close>.\<close>

fun build_graph ::
  "(nat \<times> nat list) list \<Rightarrow> int list \<Rightarrow> nat list list \<Rightarrow> exn + (int list \<times> nat list list)" where
  "build_graph [] in_degree adjacency = Inr (in_degree, adjacency)"
| "build_graph ((task_idx, prereqs) # items) in_degree adjacency =
     (if task_idx < length in_degree
      then (case add_edges task_idx prereqs adjacency of
              Inl e \<Rightarrow> Inl e
            | Inr adjacency' \<Rightarrow>
                build_graph items (in_degree[task_idx := int (length prereqs)]) adjacency')
      else Inl IndexError)"

text \<open>
  The loop \<^verbatim>\<open>for dependent in adjacency[current]\<close> (\<open>dep\<close> is \<^verbatim>\<open>dependent\<close>): one
  decrement per dependent, and an append to the queue when the count reaches zero.
\<close>

fun relax :: "nat list \<Rightarrow> int list \<Rightarrow> nat list \<Rightarrow> exn + (int list \<times> nat list)" where
  "relax [] in_degree queue = Inr (in_degree, queue)"
| "relax (dep # rest) in_degree queue =
     (if dep < length in_degree
      then (let in_degree' = in_degree[dep := in_degree ! dep - 1]
            in relax rest in_degree'
                 (if in_degree' ! dep = 0 then queue @ [dep] else queue))
      else Inl IndexError)"

text \<open>The number of strictly positive counters: what is left to enqueue.\<close>

definition pending_count :: "int list \<Rightarrow> nat" where
  "pending_count in_degree = length (filter (\<lambda>d. 0 < d) in_degree)"

text \<open>The \<^verbatim>\<open>while queue:\<close> loop of Kahn's algorithm.\<close>

function kahn_loop ::
  "nat list list \<Rightarrow> int list \<Rightarrow> nat list \<Rightarrow> nat list \<Rightarrow> exn + nat list" where
  "kahn_loop adjacency in_degree [] result = Inr result"
| "kahn_loop adjacency in_degree (current # queue) result =
     (if current < length adjacency
      then (case relax (adjacency ! current) in_degree queue of
              Inl e \<Rightarrow> Inl e
            | Inr (in_degree', queue') \<Rightarrow>
                kahn_loop adjacency in_degree' queue' (result @ [current]))
      else Inl KeyError)"
  by pat_completeness auto
termination
proof (relation "measure (\<lambda>(adjacency, in_degree, queue, result).
                            length queue + pending_count in_degree)")
  show "wf (measure (\<lambda>(adjacency, in_degree, queue, result).
                       length queue + pending_count in_degree))"
    by simp
next
  fix adjacency :: "nat list list" and in_degree :: "int list" and current :: nat
    and queue result :: "nat list" and x2 :: "int list \<times> nat list"
    and in_degree' :: "int list" and queue' :: "nat list"
  assume "current < length adjacency"
    and "relax (adjacency ! current) in_degree queue = Inr x2"
    and "(in_degree', queue') = x2"
  then have relaxed: "relax (adjacency ! current) in_degree queue = Inr (in_degree', queue')"
    by simp
  have update: "pending_count (ds[i := v]) + (if 0 < ds ! i then 1 else 0)
                  = pending_count ds + (if 0 < v then 1 else 0)"
    if "i < length ds" for ds :: "int list" and i v
    using that
  proof (induction ds arbitrary: i)
    case Nil
    then show ?case by simp
  next
    case (Cons d ds)
    show ?case
    proof (cases i)
      case 0
      then show ?thesis by (simp add: pending_count_def)
    next
      case (Suc k)
      with Cons.prems have "k < length ds" by simp
      from Cons.IH [OF this] Suc show ?thesis by (simp add: pending_count_def)
    qed
  qed
  have preserved: "length q' + pending_count deg' = length q + pending_count deg"
    if "relax ds deg q = Inr (deg', q')" for ds deg q deg' q'
    using that
  proof (induction ds arbitrary: deg q)
    case Nil
    then show ?case by simp
  next
    case (Cons d ds)
    from Cons.prems have d: "d < length deg"
      by (simp split: if_splits)
    let ?deg = "deg[d := deg ! d - 1]"
    let ?q = "if ?deg ! d = 0 then q @ [d] else q"
    from Cons.prems d have "relax ds ?deg ?q = Inr (deg', q')"
      by (simp add: Let_def)
    from Cons.IH [OF this]
    have rest: "length q' + pending_count deg' = length ?q + pending_count ?deg" .
    have at_d: "?deg ! d = deg ! d - 1"
      using d by simp
    have upd: "pending_count ?deg + (if 0 < deg ! d then 1 else 0)
                 = pending_count deg + (if 0 < deg ! d - 1 then 1 else 0)"
      by (rule update [OF d])
    show ?case
    proof (cases "deg ! d = 1")
      case True
      with upd have "pending_count ?deg + 1 = pending_count deg" by simp
      moreover from True at_d have "length ?q = length q + 1" by simp
      ultimately show ?thesis using rest by simp
    next
      case False
      with upd have "pending_count ?deg = pending_count deg"
        by (simp split: if_splits)
      moreover from False at_d have "length ?q = length q" by simp
      ultimately show ?thesis using rest by simp
    qed
  qed
  from preserved [OF relaxed]
  show "((adjacency, in_degree', queue', result @ [current]),
         (adjacency, in_degree, current # queue, result))
        \<in> measure (\<lambda>(adjacency, in_degree, queue, result).
                      length queue + pending_count in_degree)"
    by simp
qed

text \<open>
  \<^verbatim>\<open>_topological_sort(dependencies, num_tasks)\<close>: \<^verbatim>\<open>None\<close> when the result is shorter than
  the number of tasks.
\<close>

definition topological_sort :: "relation \<Rightarrow> nat \<Rightarrow> exn + nat list option" where
  "topological_sort deps num_tasks =
     (case build_graph (List.enumerate 0 deps) (replicate num_tasks 0) (replicate num_tasks []) of
        Inl e \<Rightarrow> Inl e
      | Inr (in_degree, adjacency) \<Rightarrow>
          (case kahn_loop adjacency in_degree
                  (filter (\<lambda>i. in_degree ! i = 0) [0..<num_tasks]) [] of
             Inl e \<Rightarrow> Inl e
           | Inr result \<Rightarrow> if length result \<noteq> num_tasks then Inr None else Inr (Some result)))"

section \<open>Dependency inference (ai\_planner.py)\<close>

subsection \<open>The planner object and the classifier's reply\<close>

text \<open>
  What \<^verbatim>\<open>json.loads\<close> can return. Numbers are the integers; a fractional numeral is outside
  the model. A dictionary is the list of its items.
\<close>

datatype json =
    JNull
  | JBool bool
  | JInt int
  | JStr string
  | JList "json list"
  | JDict "(string \<times> json) list"

text \<open>
  The outcome of the classifier call of \<^verbatim>\<open>_analyze_with_ai\<close>, up to \<^verbatim>\<open>json.loads\<close>:
  \<^item> \<open>Raised e\<close>: \<^verbatim>\<open>self.client.chat.completions.create(...)\<close> or reading
    \<^verbatim>\<open>response.choices[0].message.content.strip()\<close> raised \<open>e\<close>;
  \<^item> \<open>Undecodable\<close>: \<^verbatim>\<open>json.loads\<close> raised \<^verbatim>\<open>JSONDecodeError\<close>;
  \<^item> \<open>Decoded data\<close>: \<^verbatim>\<open>json.loads\<close> returned \<open>data\<close>.
\<close>

datatype reply = Raised exn | Undecodable | Decoded json

text \<open>
  The planner: the flag \<^verbatim>\<open>use_ai\<close> set by the constructor and the client, which answers
  the prompt built from a task list. Python does not fix the order in which a set of
  integers is iterated, and the sort iterates over sets; \<open>set_order\<close> is that order
  in the interpreter at hand: the elements inserted, in insertion order, are mapped to the
  elements of the set, in iteration order.
\<close>

record AITaskPlanner =
  use_ai :: bool
  client :: "Task list \<Rightarrow> reply"
  set_order :: "nat list \<Rightarrow> nat list"

text \<open>What every interpreter guarantees: a set holds each inserted element once.\<close>

definition set_order_ok :: "AITaskPlanner \<Rightarrow> bool" where
  "set_order_ok self \<longleftrightarrow>
     (\<forall>xs. distinct (set_order self xs) \<and> set (set_order self xs) = set xs)"

subsection \<open>The keyword fallback: \<^verbatim>\<open>_analyze_with_keywords\<close>\<close>

text \<open>\<^verbatim>\<open>str.lower\<close> on ASCII text: a character that is not an ASCII capital is kept.\<close>

definition lower_char :: "char \<Rightarrow> char" where
  "lower_char c =
     (case map_of (zip ''ABCDEFGHIJKLMNOPQRSTUVWXYZ'' ''abcdefghijklmnopqrstuvwxyz'') c of
        Some l \<Rightarrow> l
      | None \<Rightarrow> c)"

definition lower :: "string \<Rightarrow> string" where
  "lower s = map lower_char s"

text \<open>The table \<^verbatim>\<open>action_phases\<close>, in the order of the source.\<close>

definition action_phases :: "(string \<times> nat) list" where
  "action_phases =
     [(''start'', 1), (''begin'', 1), (''plan'', 1), (''think'', 1),
      (''research'', 2), (''analyze'', 2), (''study'', 2), (''learn'', 2),
      (''gather'', 2), (''collect'', 2),
      (''design'', 3), (''design mockup'', 3), (''sketch'', 3), (''blueprint'', 3),
      (''write'', 4), (''code'', 4), (''implement'', 4), (''build'', 4),
      (''develop'', 4), (''prepare'', 4), (''cook'', 4),
      (''set'', 5), (''arrange'', 5),
      (''test'', 6), (''review'', 6), (''check'', 6), (''quality'', 6),
      (''submit'', 7), (''publish'', 7), (''launch'', 7), (''deploy'', 7), (''turn in'', 7),
      (''eat'', 8), (''enjoy'', 8), (''use'', 8), (''market'', 9),
      (''sleep'', 10), (''rest'', 10), (''relax'', 10)]"

text \<open>
  The loop over \<^verbatim>\<open>action_phases.items()\<close>; \<^verbatim>\<open>action in task_text\<close> is the substring test,
  and \<^verbatim>\<open>float('inf')\<close> is \<open>\<infinity>\<close>.
\<close>

fun scan_actions :: "(string \<times> nat) list \<Rightarrow> string \<Rightarrow> enat \<Rightarrow> enat" where
  "scan_actions [] task_text min_phase = min_phase"
| "scan_actions ((action, phase) # rest) task_text min_phase =
     scan_actions rest task_text
       (if sublist action task_text then min min_phase (enat phase) else min_phase)"

definition task_text_of :: "Task \<Rightarrow> string" where
  "task_text_of task = lower (name task @ '' '' @ description task)"

definition task_phase :: "Task \<Rightarrow> nat" where
  "task_phase task =
     (let min_phase = scan_actions action_phases (task_text_of task) \<infinity>
      in if min_phase \<noteq> \<infinity> then the_enat min_phase else 5)"

text \<open>
  \<^verbatim>\<open>_analyze_with_keywords(tasks)\<close>. For each \<open>i\<close> the inner loop adds to the set of \<open>i\<close>, in
  ascending order, every \<open>j\<close> with \<^verbatim>\<open>i != j\<close> and \<^verbatim>\<open>task_phases[j] < task_phases[i]\<close>.
  The methods that receive the task list return it beside their result, as it is when
  they return.
\<close>

definition analyze_with_keywords :: "AITaskPlanner \<Rightarrow> Task list \<Rightarrow> relation \<times> Task list" where
  "analyze_with_keywords self task_list =
     (let n = length task_list;
          task_phases = map task_phase task_list
      in (map (\<lambda>i. set_order self
                      (filter (\<lambda>j. i \<noteq> j \<and> task_phases ! j < task_phases ! i) [0..<n]))
              [0..<n],
          task_list))"

subsection \<open>The classifier path: \<^verbatim>\<open>_analyze_with_ai\<close>\<close>

text \<open>\<^verbatim>\<open>str(i)\<close> for a natural number.\<close>

fun str_nat :: "nat \<Rightarrow> string" where
  "str_nat n =
     (if n < 10 then [''0123456789'' ! n]
      else str_nat (n div 10) @ [''0123456789'' ! (n mod 10)])"

declare str_nat.simps [simp del]

text \<open>
  The operations of Python on a decoded value that the conversion uses, with the
  exceptions they raise: \<^verbatim>\<open>key in deps\<close>, \<^verbatim>\<open>deps[key]\<close>, iteration, and the comparison
  \<^verbatim>\<open>1 <= x\<close>, which needs a number (\<^verbatim>\<open>True\<close> is 1 and \<^verbatim>\<open>False\<close> is 0).
\<close>

fun contains_key :: "json \<Rightarrow> string \<Rightarrow> exn + bool" where
  "contains_key (JDict items) key = Inr (key \<in> set (map fst items))"
| "contains_key (JList xs) key = Inr (JStr key \<in> set xs)"
| "contains_key (JStr s) key = Inr (sublist key s)"
| "contains_key _ key = Inl TypeError"

fun subscript :: "json \<Rightarrow> string \<Rightarrow> exn + json" where
  "subscript (JDict items) key =
     (case map_of items key of Some v \<Rightarrow> Inr v | None \<Rightarrow> Inl KeyError)"
| "subscript _ key = Inl TypeError"

fun iterate :: "json \<Rightarrow> exn + json list" where
  "iterate (JList xs) = Inr xs"
| "iterate (JDict items) = Inr (map (\<lambda>(k, v). JStr k) items)"
| "iterate (JStr s) = Inr (map (\<lambda>c. JStr [c]) s)"
| "iterate _ = Inl TypeError"

fun as_int :: "json \<Rightarrow> exn + int" where
  "as_int (JInt k) = Inr k"
| "as_int (JBool b) = Inr (if b then 1 else 0)"
| "as_int _ = Inl TypeError"

text \<open>The generator \<^verbatim>\<open>x - 1 for x in deps[key] if 1 <= x <= len(tasks)\<close>.\<close>

fun collect_prereqs :: "nat \<Rightarrow> json list \<Rightarrow> exn + nat list" where
  "collect_prereqs n [] = Inr []"
| "collect_prereqs n (x # xs) =
     (case as_int x of
        Inl e \<Rightarrow> Inl e
      | Inr k \<Rightarrow>
          (case collect_prereqs n xs of
             Inl e \<Rightarrow> Inl e
           | Inr ks \<Rightarrow> Inr (if 1 \<le> k \<and> k \<le> int n then nat (k - 1) # ks else ks)))"

text \<open>The body of the loop \<^verbatim>\<open>for i in range(len(tasks))\<close>: the value of \<^verbatim>\<open>result[i]\<close>.\<close>

definition prereqs_of_key :: "AITaskPlanner \<Rightarrow> json \<Rightarrow> nat \<Rightarrow> nat \<Rightarrow> exn + nat list" where
  "prereqs_of_key self deps n i =
     (let key = str_nat (i + 1) in
      case contains_key deps key of
        Inl e \<Rightarrow> Inl e
      | Inr False \<Rightarrow> Inr []
      | Inr True \<Rightarrow>
          (case subscript deps key of
             Inl e \<Rightarrow> Inl e
           | Inr listed \<Rightarrow>
               (case iterate listed of
                  Inl e \<Rightarrow> Inl e
                | Inr xs \<Rightarrow>
                    (case collect_prereqs n xs of
                       Inl e \<Rightarrow> Inl e
                     | Inr ks \<Rightarrow> Inr (set_order self ks)))))"

text \<open>The loop itself: it stops at the first exception.\<close>

fun convert_keys :: "(nat \<Rightarrow> exn + nat list) \<Rightarrow> nat list \<Rightarrow> exn + relation" where
  "convert_keys f [] = Inr []"
| "convert_keys f (i # rest) =
     (case f i of
        Inl e \<Rightarrow> Inl e
      | Inr prereqs \<Rightarrow>
          (case convert_keys f rest of
             Inl e \<Rightarrow> Inl e
           | Inr others \<Rightarrow> Inr (prereqs # others)))"

text \<open>
  The \<^verbatim>\<open>try\<close> block after the call: \<^verbatim>\<open>data.get("dependencies", {})\<close> needs a dictionary.
\<close>

definition convert_reply :: "AITaskPlanner \<Rightarrow> json \<Rightarrow> nat \<Rightarrow> exn + relation" where
  "convert_reply self data n =
     (case data of
        JDict items \<Rightarrow>
          (let deps = (case map_of items ''dependencies'' of Some v \<Rightarrow> v | None \<Rightarrow> JDict [])
           in convert_keys (prereqs_of_key self deps n) [0..<n])
      | _ \<Rightarrow> Inl AttributeError)"

definition analyze_with_ai ::
  "AITaskPlanner \<Rightarrow> Task list \<Rightarrow> (exn + relation) \<times> Task list" where
  "analyze_with_ai self task_list =
     (case client self task_list of
        Raised e \<Rightarrow> (Inl e, task_list)
      | Undecodable \<Rightarrow>
          (case analyze_with_keywords self task_list of (r, task_list') \<Rightarrow> (Inr r, task_list'))
      | Decoded data \<Rightarrow> (convert_reply self data (length task_list), task_list))"

subsection \<open>\<^verbatim>\<open>analyze_dependencies\<close>\<close>

text \<open>
  The \<^verbatim>\<open>try ... except Exception\<close> around the classifier path sends every exception to
  the keyword fallback.
\<close>

definition analyze_dependencies ::
  "AITaskPlanner \<Rightarrow> Task list \<Rightarrow> (exn + relation) \<times> Task list" where
  "analyze_dependencies self task_list =
     (if length task_list \<le> 1 then (Inr (map (\<lambda>i. []) [0..<length task_list]), task_list)
      else if use_ai self then
        (case analyze_with_ai self task_list of
           (Inr r, task_list') \<Rightarrow> (Inr r, task_list')
         | (Inl e, task_list') \<Rightarrow>
             (case analyze_with_keywords self task_list' of
                (r, task_list'') \<Rightarrow> (Inr r, task_list'')))
      else (case analyze_with_keywords self task_list of (r, task_list') \<Rightarrow> (Inr r, task_list')))"

section \<open>\<^verbatim>\<open>generate_plan\<close> (ai\_planner.py)\<close>

text \<open>
  The second component of the pair that \<^verbatim>\<open>generate_plan\<close> returns, the dictionary of display
  strings, is not modelled. Building it reads \<^verbatim>\<open>dependencies[i]\<close> for every task and
  \<^verbatim>\<open>tasks[j].name\<close> for every recorded prerequisite; these reads can raise and are kept.
\<close>

fun read_names :: "Task list \<Rightarrow> nat list \<Rightarrow> exn + string list" where
  "read_names task_list [] = Inr []"
| "read_names task_list (j # js) =
     (if j < length task_list
      then (case read_names task_list js of
              Inl e \<Rightarrow> Inl e
            | Inr names \<Rightarrow> Inr (name (task_list ! j) # names))
      else Inl IndexError)"

fun describe_dependencies :: "relation \<Rightarrow> Task list \<Rightarrow> nat list \<Rightarrow> exn + string list list" where
  "describe_dependencies deps task_list [] = Inr []"
| "describe_dependencies deps task_list (i # rest) =
     (if i < length deps
      then (case read_names task_list (deps ! i) of
              Inl e \<Rightarrow> Inl e
            | Inr names \<Rightarrow>
                (case describe_dependencies deps task_list rest of
                   Inl e \<Rightarrow> Inl e
                 | Inr others \<Rightarrow> Inr (names # others)))
      else Inl KeyError)"

definition generate_plan ::
  "AITaskPlanner \<Rightarrow> Task list \<Rightarrow> (exn + ExecutionPlan) \<times> Task list" where
  "generate_plan self task_list =
     (if task_list = [] then
        (Inr \<lparr>execution_order = [], is_valid = True, error_message = [],
              plan_tasks = Map.empty\<rparr>, task_list)
      else
        (case analyze_dependencies self task_list of
           (Inl e, task_list') \<Rightarrow> (Inl e, task_list')
         | (Inr deps, task_list') \<Rightarrow>
             (case describe_dependencies deps task_list' [0..<length task_list'] of
                Inl e \<Rightarrow> (Inl e, task_list')
              | Inr shown \<Rightarrow>
                  (case topological_sort deps (length task_list') of
                     Inl e \<Rightarrow> (Inl e, task_list')
                   | Inr None \<Rightarrow>
                       (Inr \<lparr>execution_order = [], is_valid = False,
                             error_message = ''Circular dependency detected among tasks'',
                             plan_tasks = Map.empty\<rparr>, task_list')
                   | Inr (Some ordered_indices) \<Rightarrow>
                       (if \<forall>i \<in> set ordered_indices. i < length task_list' then
                          (let ordered_tasks = map (\<lambda>i. task_list' ! i) ordered_indices
                           in (Inr \<lparr>execution_order = map task_id ordered_tasks,
                                    is_valid = True, error_message = [],
                                    plan_tasks =
                                      map_of (rev (map (\<lambda>t. (task_id t, t)) ordered_tasks))\<rparr>,
                               task_list'))
                        else (Inl IndexError, task_list'))))))"

section \<open>Execution control (executor.py)\<close>

text \<open>
  The executor changes the \<^verbatim>\<open>status\<close> of task objects that it shares with its caller, so
  the objects live in a store and a task is a reference into it. \<^verbatim>\<open>TaskExecutor\<close> has the
  list \<^verbatim>\<open>tasks\<close> (the field \<open>exec_tasks\<close>) and the two flags; \<^verbatim>\<open>execution_thread\<close> is never
  assigned and is left out.
\<close>

type_synonym ref = nat

type_synonym store = "ref \<Rightarrow> Task"

record TaskExecutor =
  exec_tasks :: "ref list"
  stop_flag :: bool
  pause_flag :: bool

definition set_status :: "ref \<Rightarrow> TaskStatus \<Rightarrow> store \<Rightarrow> store" where
  "set_status task s objs = objs(task := (objs task)\<lparr>status := s\<rparr>)"

text \<open>
  \<^verbatim>\<open>execute_task\<close> runs on a worker while \<^verbatim>\<open>stop_execution\<close>, \<^verbatim>\<open>pause_execution\<close> and
  \<^verbatim>\<open>resume_execution\<close> are called from outside, and the source takes no lock: another method
  can run between any two statements of a call. So each method is modelled statement by
  statement. The place of the worker in \<^verbatim>\<open>execute_task(task)\<close> is the line of executor.py
  whose statement it executes next:
  \<^item> line 37, the test \<^verbatim>\<open>if self.stop_flag: return\<close>;
  \<^item> line 41, \<^verbatim>\<open>task.status = TaskStatus.RUNNING\<close>;
  \<^item> line 44, \<^verbatim>\<open>time.sleep(1.5)\<close>;
  \<^item> line 46, the test \<^verbatim>\<open>if not self.stop_flag\<close>;
  \<^item> line 48, \<^verbatim>\<open>task.status = TaskStatus.COMPLETED\<close>.
\<close>

datatype worker = Idle | Line37 ref | Line41 ref | Line44 ref | Line46 ref | Line48 ref

text \<open>One statement of \<^verbatim>\<open>execute_task\<close>: the store and the place after it.\<close>

fun execute_task :: "TaskExecutor \<Rightarrow> store \<Rightarrow> worker \<Rightarrow> store \<times> worker" where
  "execute_task self objs Idle = (objs, Idle)"
| "execute_task self objs (Line37 task) = (objs, if stop_flag self then Idle else Line41 task)"
| "execute_task self objs (Line41 task) = (set_status task RUNNING objs, Line44 task)"
| "execute_task self objs (Line44 task) = (objs, Line46 task)"
| "execute_task self objs (Line46 task) =
     (objs, if \<not> stop_flag self then Line48 task else Idle)"
| "execute_task self objs (Line48 task) = (set_status task COMPLETED objs, Idle)"

definition pause_execution :: "TaskExecutor \<Rightarrow> TaskExecutor" where
  "pause_execution self = self\<lparr>pause_flag := True\<rparr>"

definition resume_execution :: "TaskExecutor \<Rightarrow> TaskExecutor" where
  "resume_execution self = self\<lparr>pause_flag := False\<rparr>"

text \<open>
  The place of the caller in \<^verbatim>\<open>stop_execution()\<close>:
  \<^item> line 60, \<^verbatim>\<open>self.stop_flag = True\<close>;
  \<^item> line 63, the head of \<^verbatim>\<open>for task in self.tasks\<close>, with the tasks still to visit;
  \<^item> line 64, the test \<^verbatim>\<open>if task.status == TaskStatus.RUNNING\<close>;
  \<^item> line 65, \<^verbatim>\<open>task.status = TaskStatus.PENDING\<close>.
\<close>

datatype controller =
  Away | Line60 | Line63 "ref list" | Line64 ref "ref list" | Line65 ref "ref list"

text \<open>One statement of \<^verbatim>\<open>stop_execution\<close>: the executor, the store and the place after it.\<close>

fun stop_execution ::
  "TaskExecutor \<Rightarrow> store \<Rightarrow> controller \<Rightarrow> TaskExecutor \<times> store \<times> controller" where
  "stop_execution self objs Away = (self, objs, Away)"
| "stop_execution self objs Line60 = (self\<lparr>stop_flag := True\<rparr>, objs, Line63 (exec_tasks self))"
| "stop_execution self objs (Line63 []) = (self, objs, Away)"
| "stop_execution self objs (Line63 (task # rest)) = (self, objs, Line64 task rest)"
| "stop_execution self objs (Line64 task rest) =
     (self, objs, if status (objs task) = RUNNING then Line65 task rest else Line63 rest)"
| "stop_execution self objs (Line65 task rest) = (self, set_status task PENDING objs, Line63 rest)"

text \<open>
  A session: the executor, the task objects, the place of the worker and the place of the
  caller of \<^verbatim>\<open>stop_execution\<close>. Its events, in any order:
  \<^item> \<open>Call task\<close>: the idle worker calls \<^verbatim>\<open>execute_task(task)\<close> and stands at line 37;
  \<^item> \<open>Work\<close>: the worker executes the statement it stands at;
  \<^item> \<open>Stop\<close>: \<^verbatim>\<open>stop_execution()\<close> is called and its caller stands at line 60;
  \<^item> \<open>Control\<close>: the caller of \<^verbatim>\<open>stop_execution\<close> executes the statement it stands at;
  \<^item> \<open>Pause\<close>, \<open>Resume\<close>: \<^verbatim>\<open>pause_execution()\<close>, \<^verbatim>\<open>resume_execution()\<close>, one assignment each.
  There is one worker and one caller of \<^verbatim>\<open>stop_execution\<close>: a call while the worker is in a
  call, and a stop while a stop is under way, leave the session as it is.
\<close>

record session =
  executor :: TaskExecutor
  objects :: store
  worker_at :: worker
  controller_at :: controller

datatype event = Call ref | Work | Stop | Control | Pause | Resume

fun step :: "session \<Rightarrow> event \<Rightarrow> session" where
  "step s (Call task) = (case worker_at s of Idle \<Rightarrow> s\<lparr>worker_at := Line37 task\<rparr> | _ \<Rightarrow> s)"
| "step s Work =
     (case execute_task (executor s) (objects s) (worker_at s) of
        (objs, place) \<Rightarrow> s\<lparr>objects := objs, worker_at := place\<rparr>)"
| "step s Stop = (case controller_at s of Away \<Rightarrow> s\<lparr>controller_at := Line60\<rparr> | _ \<Rightarrow> s)"
| "step s Control =
     (case stop_execution (executor s) (objects s) (controller_at s) of
        (self, objs, place) \<Rightarrow> s\<lparr>executor := self, objects := objs, controller_at := place\<rparr>)"
| "step s Pause = s\<lparr>executor := pause_execution (executor s)\<rparr>"
| "step s Resume = s\<lparr>executor := resume_execution (executor s)\<rparr>"

definition run :: "session \<Rightarrow> event list \<Rightarrow> session" where
  "run s events = foldl step s events"

section \<open>Notions of the statements\<close>

text \<open>
  The edges of a relation: \<open>(j, i)\<close> when \<open>j\<close> is recorded as a prerequisite of \<open>i\<close>. A
  relation over \<open>N\<close> tasks is well formed when each of its sets lists distinct indices
  below \<open>N\<close>.
\<close>

definition edges :: "relation \<Rightarrow> (nat \<times> nat) set" where
  "edges deps = {(j, i). i < length deps \<and> j \<in> set (deps ! i)}"

definition well_formed :: "relation \<Rightarrow> bool" where
  "well_formed deps \<longleftrightarrow> (\<forall>ps \<in> set deps. distinct ps \<and> (\<forall>j \<in> set ps. j < length deps))"

text \<open>
  The position of an element in a list (the length of the list when it does not occur),
  and what it is for a list of indices to be an execution order of a relation: it holds
  every index once, and every prerequisite of an index stands before it.
\<close>

fun position :: "'a list \<Rightarrow> 'a \<Rightarrow> nat" where
  "position [] x = 0"
| "position (y # ys) x = (if x = y then 0 else Suc (position ys x))"

definition topological_order :: "relation \<Rightarrow> nat list \<Rightarrow> bool" where
  "topological_order deps ord \<longleftrightarrow>
     mset ord = mset [0..<length deps] \<and>
     (\<forall>i<length deps. \<forall>j \<in> set (deps ! i). position ord j < position ord i)"

text \<open>The phases of the keywords that occur in the text of a task.\<close>

definition matched :: "(string \<times> nat) list \<Rightarrow> string \<Rightarrow> nat set" where
  "matched table txt = {phase. \<exists>action. (action, phase) \<in> set table \<and> sublist action txt}"

definition matching_phases :: "Task \<Rightarrow> nat set" where
  "matching_phases task = matched action_phases (task_text_of task)"

text \<open>
  The phase in the words of the claim about the fallback: the least phase of the keywords
  that occur in the lowercase of the name directly followed by the description, and 5
  when none occurs.
\<close>

definition phase_by_plain_concatenation :: "Task \<Rightarrow> nat" where
  "phase_by_plain_concatenation task =
     (let found = matched action_phases (lower (name task @ description task))
      in if found = {} then 5 else Min found)"

text \<open>
  For the proofs: the adjacency lists that the sort builds from a relation, the invariant
  of its loop (the counter of a task is the number of its prerequisites not yet emitted; a
  task is emitted or queued exactly when all its prerequisites are emitted; every emitted
  task comes after its prerequisites).
\<close>

definition adjacency_of :: "relation \<Rightarrow> nat list list \<Rightarrow> bool" where
  "adjacency_of deps adj \<longleftrightarrow>
     length adj = length deps \<and>
     (\<forall>j<length deps. adj ! j = filter (\<lambda>i. j \<in> set (deps ! i)) [0..<length deps])"

definition kahn_inv :: "relation \<Rightarrow> int list \<Rightarrow> nat list \<Rightarrow> nat list \<Rightarrow> bool" where
  "kahn_inv deps indeg queue result \<longleftrightarrow>
     length indeg = length deps \<and>
     distinct (result @ queue) \<and>
     (\<forall>i \<in> set (result @ queue). i < length deps) \<and>
     (\<forall>i<length deps. indeg ! i = int (card (set (deps ! i) - set result))) \<and>
     (\<forall>i<length deps. i \<in> set (result @ queue) \<longleftrightarrow> set (deps ! i) \<subseteq> set result) \<and>
     (\<forall>k<length result. set (deps ! (result ! k)) \<subseteq> set (take k result))"

section \<open>Example inputs\<close>

text \<open>
  A task as the user interface creates it, the three tasks of the report scenario, two
  tasks that match no keyword, a planner without classifier, planners whose classifier
  gives a fixed reply, and replies that list integer indices.
\<close>

definition new_task :: "string \<Rightarrow> string \<Rightarrow> Task" where
  "new_task ident title =
     \<lparr>task_id = ident, name = title, description = [], dependencies = [], priority = 5,
      status = PENDING, created_at = 0\<rparr>"

definition report_tasks :: "Task list" where
  "report_tasks =
     [new_task ''task_0'' ''Research topic'', new_task ''task_1'' ''Write report'',
      new_task ''task_2'' ''Submit report'']"

definition errand_tasks :: "Task list" where
  "errand_tasks = [new_task ''task_0'' ''Buy milk'', new_task ''task_1'' ''Call the bank'']"

definition keyword_planner :: AITaskPlanner where
  "keyword_planner = \<lparr>use_ai = False, client = (\<lambda>ts. Raised ClientError), set_order = remdups\<rparr>"

definition scripted_planner :: "reply \<Rightarrow> AITaskPlanner" where
  "scripted_planner r = \<lparr>use_ai = True, client = (\<lambda>ts. r), set_order = remdups\<rparr>"

definition reply_of :: "(string \<times> int list) list \<Rightarrow> reply" where
  "reply_of listed =
     Decoded (JDict [(''dependencies'', JDict (map (\<lambda>(k, xs). (k, JList (map JInt xs))) listed))])"

definition listed_example :: "(string \<times> json) list" where
  "listed_example =
     [(''1'', JList (map JInt [2, 5, 0])), (''3'', JList (map JInt [1, 1, - 4, 3]))]"

definition index_planner :: AITaskPlanner where
  "index_planner = scripted_planner (Decoded (JDict [(''dependencies'', JDict listed_example)]))"

text \<open>
  Three pending tasks and an executor over them, before anything is called, and the
  statuses of the three tasks in a session.
\<close>

definition three_pending :: session where
  "three_pending =
     \<lparr>executor = \<lparr>exec_tasks = [0, 1, 2], stop_flag = False, pause_flag = False\<rparr>,
      objects = (\<lambda>r. new_task ''task'' ''Task''),
      worker_at = Idle,
      controller_at = Away\<rparr>"

definition statuses :: "session \<Rightarrow> TaskStatus list" where
  "statuses s = map (\<lambda>task. status (objects s task)) (exec_tasks (executor s))"

text \<open>
  Schedules of a run over the three tasks. In each the first call runs to its end and
  the worker enters the second call; \<^verbatim>\<open>stop_execution()\<close> then runs from its first statement
  to its last without interruption; the worker goes on and calls the third task. They
  differ in where the worker stands in the second call when the stop comes:
  \<^item> \<open>stop_during_sleep\<close>: in the sleep of line 44, the task Running;
  \<^item> \<open>stop_before_running\<close>: between the test of line 37 and the assignment of line 41;
  \<^item> \<open>stop_before_completed\<close>: between the test of line 46 and the assignment of line 48,
    the task Running.
\<close>

definition call_to_end :: "ref \<Rightarrow> event list" where
  "call_to_end task = [Call task, Work, Work, Work, Work, Work]"

definition stop_during_sleep :: "event list" where
  "stop_during_sleep =
     call_to_end 0 @ [Call 1, Work, Work]
       @ [Stop, Control, Control, Control, Control, Control, Control, Control, Control, Control]
       @ [Work, Work] @ [Call 2, Work]"

definition stop_before_running :: "event list" where
  "stop_before_running =
     call_to_end 0 @ [Call 1, Work]
       @ [Stop, Control, Control, Control, Control, Control, Control, Control, Control]
       @ [Work, Work, Work] @ [Call 2, Work]"

definition stop_before_completed :: "event list" where
  "stop_before_completed =
     call_to_end 0 @ [Call 1, Work, Work, Work, Work]
       @ [Stop, Control, Control, Control, Control, Control, Control, Control, Control, Control]
       @ [Work] @ [Call 2, Work]"

text \<open>
  Two tasks whose keyword appears only when name and description are joined: without the
  space for the first, with it for the second.
\<close>

definition split_keyword_task :: Task where
  "split_keyword_task = (new_task ''task_0'' ''re'')\<lparr>description := ''search''\<rparr>"

definition turn_in_task :: Task where
  "turn_in_task = (new_task ''task_0'' ''turn'')\<lparr>description := ''in homework''\<rparr>"

section \<open>Correctness of the sort\<close>

lemma add_edges_spec:
  assumes "distinct ps" and "\<forall>p \<in> set ps. p < length adj"
  shows "\<exists>adj'. add_edges t ps adj = Inr adj' \<and> length adj' = length adj \<and>
           (\<forall>j<length adj. adj' ! j = (if j \<in> set ps then adj ! j @ [t] else adj ! j))"
  using assms
proof (induction ps arbitrary: adj)
  case Nil
  then show ?case by simp
next
  case (Cons p ps)
  let ?adj = "adj[p := adj ! p @ [t]]"
  from Cons.prems have p: "p < length adj" and notin: "p \<notin> set ps"
    and dist: "distinct ps" and bound: "\<forall>q \<in> set ps. q < length ?adj"
    by simp_all
  from Cons.IH [OF dist bound] obtain adj' where
    run: "add_edges t ps ?adj = Inr adj'" and len: "length adj' = length ?adj"
    and at: "\<forall>j<length ?adj. adj' ! j = (if j \<in> set ps then ?adj ! j @ [t] else ?adj ! j)"
    by blast
  have "\<forall>j<length adj. adj' ! j = (if j \<in> set (p # ps) then adj ! j @ [t] else adj ! j)"
  proof (intro allI impI)
    fix j assume j: "j < length adj"
    with at have "adj' ! j = (if j \<in> set ps then ?adj ! j @ [t] else ?adj ! j)" by simp
    with notin j show "adj' ! j = (if j \<in> set (p # ps) then adj ! j @ [t] else adj ! j)"
      by (cases "j = p") auto
  qed
  with run len p show ?case by simp
qed

lemma build_graph_spec:
  assumes wf: "well_formed deps"
    and "k \<le> length deps" and "length indeg = length deps" and "length adj = length deps"
    and "\<forall>i<k. indeg ! i = int (length (deps ! i))"
    and "\<forall>j<length deps. adj ! j = filter (\<lambda>i. j \<in> set (deps ! i)) [0..<k]"
  shows "\<exists>indeg' adj'. build_graph (List.enumerate k (drop k deps)) indeg adj = Inr (indeg', adj') \<and>
           length indeg' = length deps \<and>
           (\<forall>i<length deps. indeg' ! i = int (length (deps ! i))) \<and>
           adjacency_of deps adj'"
  using assms(2-)
proof (induction "length deps - k" arbitrary: k indeg adj)
  case 0
  then have "k = length deps" by simp
  with 0 show ?case by (simp add: adjacency_of_def)
next
  case (Suc m)
  then have k: "k < length deps" by simp
  let ?ps = "deps ! k"
  from wf k have dist: "distinct ?ps" and bnd: "\<forall>p \<in> set ?ps. p < length adj"
    using Suc.prems(3) by (auto simp: well_formed_def)
  from add_edges_spec [OF dist bnd, of k] obtain adj1 where
    run1: "add_edges k ?ps adj = Inr adj1" and len1: "length adj1 = length adj"
    and at1: "\<forall>j<length adj. adj1 ! j = (if j \<in> set ?ps then adj ! j @ [k] else adj ! j)"
    by blast
  let ?indeg = "indeg[k := int (length ?ps)]"
  have a: "m = length deps - Suc k" using Suc.hyps(2) by simp
  have b: "Suc k \<le> length deps" using k by simp
  have c: "length ?indeg = length deps" using Suc.prems(2) by simp
  have d: "length adj1 = length deps" using len1 Suc.prems(3) by simp
  have e: "\<forall>i<Suc k. ?indeg ! i = int (length (deps ! i))"
    using Suc.prems(4) Suc.prems(2) k by (auto simp: nth_list_update less_Suc_eq)
  have f: "\<forall>j<length deps. adj1 ! j = filter (\<lambda>i. j \<in> set (deps ! i)) [0..<Suc k]"
    using at1 Suc.prems(5) Suc.prems(3) by simp
  from Suc.hyps(1) [OF a b c d e f] obtain indeg' adj' where
    rest: "build_graph (List.enumerate (Suc k) (drop (Suc k) deps)) ?indeg adj1 = Inr (indeg', adj')"
    and props: "length indeg' = length deps"
      "\<forall>i<length deps. indeg' ! i = int (length (deps ! i))" "adjacency_of deps adj'"
    by blast
  have "drop k deps = ?ps # drop (Suc k) deps"
    using k by (simp add: Cons_nth_drop_Suc)
  then have "build_graph (List.enumerate k (drop k deps)) indeg adj = Inr (indeg', adj')"
    using rest run1 k Suc.prems(2) by simp
  with props show ?case by blast
qed

lemma relax_spec:
  assumes "distinct ds" and "\<forall>d \<in> set ds. d < length indeg"
  shows "\<exists>indeg'. relax ds indeg queue = Inr (indeg', queue @ filter (\<lambda>d. indeg ! d = 1) ds) \<and>
           length indeg' = length indeg \<and>
           (\<forall>i<length indeg. indeg' ! i = (if i \<in> set ds then indeg ! i - 1 else indeg ! i))"
  using assms
proof (induction ds arbitrary: indeg queue)
  case Nil
  then show ?case by simp
next
  case (Cons d ds)
  let ?deg = "indeg[d := indeg ! d - 1]"
  let ?q = "if ?deg ! d = 0 then queue @ [d] else queue"
  from Cons.prems have d: "d < length indeg" and notin: "d \<notin> set ds"
    and dist: "distinct ds" and bound: "\<forall>x \<in> set ds. x < length ?deg"
    by simp_all
  from Cons.IH [OF dist bound, of ?q] obtain indeg' where
    run: "relax ds ?deg ?q = Inr (indeg', ?q @ filter (\<lambda>x. ?deg ! x = 1) ds)"
    and len: "length indeg' = length ?deg"
    and at: "\<forall>i<length ?deg. indeg' ! i = (if i \<in> set ds then ?deg ! i - 1 else ?deg ! i)"
    by blast
  have same: "filter (\<lambda>x. ?deg ! x = 1) ds = filter (\<lambda>x. indeg ! x = 1) ds"
  proof (rule filter_cong [OF refl])
    fix x assume "x \<in> set ds"
    with notin have "d \<noteq> x" by blast
    then show "(?deg ! x = 1) = (indeg ! x = 1)" by simp
  qed
  have q: "?q @ filter (\<lambda>x. indeg ! x = 1) ds = queue @ filter (\<lambda>x. indeg ! x = 1) (d # ds)"
    using d by simp
  have "\<forall>i<length indeg. indeg' ! i = (if i \<in> set (d # ds) then indeg ! i - 1 else indeg ! i)"
  proof (intro allI impI)
    fix i assume i: "i < length indeg"
    with at have "indeg' ! i = (if i \<in> set ds then ?deg ! i - 1 else ?deg ! i)" by simp
    with notin i show "indeg' ! i = (if i \<in> set (d # ds) then indeg ! i - 1 else indeg ! i)"
      by (cases "i = d") auto
  qed
  moreover have "relax (d # ds) indeg queue
                   = Inr (indeg', queue @ filter (\<lambda>x. indeg ! x = 1) (d # ds))"
    using run d unfolding same q [symmetric] by (simp add: Let_def)
  ultimately show ?case using len by auto
qed

lemma kahn_step:
  assumes inv: "kahn_inv deps indeg (c # queue) result"
    and adj: "adjacency_of deps adj"
  shows "\<exists>indeg' queue'. relax (adj ! c) indeg queue = Inr (indeg', queue') \<and>
           kahn_inv deps indeg' queue' (result @ [c])"
proof -
  let ?n = "length deps"
  let ?P = "\<lambda>i. set (deps ! i)"
  from inv have len: "length indeg = ?n"
    and dist: "distinct (result @ c # queue)"
    and bound: "\<forall>i \<in> set (result @ c # queue). i < ?n"
    and deg: "\<forall>i<?n. indeg ! i = int (card (?P i - set result))"
    and mem: "\<forall>i<?n. i \<in> set (result @ c # queue) \<longleftrightarrow> ?P i \<subseteq> set result"
    and ord: "\<forall>k<length result. ?P (result ! k) \<subseteq> set (take k result)"
    by (simp_all add: kahn_inv_def)
  from bound have c: "c < ?n" by simp
  from dist have c_new: "c \<notin> set result" by simp
  from adj c have adjc: "adj ! c = filter (\<lambda>i. c \<in> ?P i) [0..<?n]"
    by (simp add: adjacency_of_def)
  have succ: "\<And>i. i \<in> set (adj ! c) \<longleftrightarrow> i < ?n \<and> c \<in> ?P i"
    by (auto simp: adjc)
  have d1: "distinct (adj ! c)" by (simp add: adjc)
  have d2: "\<forall>d \<in> set (adj ! c). d < length indeg" by (simp add: succ len)
  let ?new = "filter (\<lambda>d. indeg ! d = 1) (adj ! c)"
  from relax_spec [OF d1 d2, of queue] obtain indeg' where
    run: "relax (adj ! c) indeg queue = Inr (indeg', queue @ ?new)"
    and len': "length indeg' = length indeg"
    and at: "\<forall>i<length indeg. indeg' ! i = (if i \<in> set (adj ! c) then indeg ! i - 1 else indeg ! i)"
    by blast
  have fin: "\<And>i. finite (?P i - set result)" by simp
  have one: "\<And>i. i < ?n \<Longrightarrow> c \<in> ?P i \<Longrightarrow>
               (indeg ! i = 1) \<longleftrightarrow> (?P i \<subseteq> insert c (set result))"
  proof -
    fix i assume i: "i < ?n" and ci: "c \<in> ?P i"
    from ci c_new have inset: "c \<in> ?P i - set result" by simp
    show "(indeg ! i = 1) \<longleftrightarrow> (?P i \<subseteq> insert c (set result))"
    proof
      assume "indeg ! i = 1"
      with deg i have "card (?P i - set result) = 1" by simp
      then obtain x where "?P i - set result = {x}" by (auto simp: card_1_singleton_iff)
      with inset show "?P i \<subseteq> insert c (set result)" by auto
    next
      assume "?P i \<subseteq> insert c (set result)"
      with inset have "?P i - set result = {c}" by auto
      with deg i show "indeg ! i = 1" by simp
    qed
  qed
  have new_iff: "\<And>i. i \<in> set ?new \<longleftrightarrow> i < ?n \<and> c \<in> ?P i \<and> ?P i \<subseteq> insert c (set result)"
    using one succ by auto
  have new_fresh: "\<And>i. i \<in> set ?new \<Longrightarrow> i \<notin> set (result @ c # queue)"
  proof
    fix i assume "i \<in> set ?new" and old: "i \<in> set (result @ c # queue)"
    then have i: "i < ?n" and ci: "c \<in> ?P i" using new_iff by blast+
    from mem i old have "?P i \<subseteq> set result" by blast
    with ci c_new show False by blast
  qed
  have I1: "length indeg' = ?n" using len len' by simp
  have I2: "distinct ((result @ [c]) @ queue @ ?new)"
    using dist d1 new_fresh by auto
  have I3: "\<forall>i \<in> set ((result @ [c]) @ queue @ ?new). i < ?n"
    using bound new_iff by auto
  have I4: "\<forall>i<?n. indeg' ! i = int (card (?P i - set (result @ [c])))"
  proof (intro allI impI)
    fix i assume i: "i < ?n"
    show "indeg' ! i = int (card (?P i - set (result @ [c])))"
    proof (cases "c \<in> ?P i")
      case True
      with c_new have inset: "c \<in> ?P i - set result" by simp
      have eq: "?P i - set (result @ [c]) = (?P i - set result) - {c}" by auto
      from inset have pos: "0 < card (?P i - set result)"
        using fin card_gt_0_iff by blast
      have "card ((?P i - set result) - {c}) = card (?P i - set result) - 1"
        using inset by (simp add: card_Diff_singleton)
      with pos have "int (card (?P i - set (result @ [c]))) = int (card (?P i - set result)) - 1"
        unfolding eq by simp
      moreover from True i at len have "indeg' ! i = indeg ! i - 1" by (simp add: succ)
      ultimately show ?thesis using deg i by simp
    next
      case False
      then have "?P i - set (result @ [c]) = ?P i - set result" by auto
      moreover from False i at len have "indeg' ! i = indeg ! i" by (simp add: succ)
      ultimately show ?thesis using deg i by simp
    qed
  qed
  have I5: "\<forall>i<?n. i \<in> set ((result @ [c]) @ queue @ ?new) \<longleftrightarrow> ?P i \<subseteq> set (result @ [c])"
  proof (intro allI impI)
    fix i assume i: "i < ?n"
    from mem i have old: "i \<in> set (result @ c # queue) \<longleftrightarrow> ?P i \<subseteq> set result" by simp
    show "i \<in> set ((result @ [c]) @ queue @ ?new) \<longleftrightarrow> ?P i \<subseteq> set (result @ [c])"
    proof (cases "c \<in> ?P i")
      case True
      with c_new have "\<not> ?P i \<subseteq> set result" by blast
      with old have "i \<notin> set (result @ c # queue)" by simp
      moreover from True i have "i \<in> set ?new \<longleftrightarrow> ?P i \<subseteq> insert c (set result)"
        using new_iff by blast
      ultimately show ?thesis by auto
    next
      case False
      then have "i \<notin> set ?new" using new_iff by blast
      moreover from False have "?P i \<subseteq> set (result @ [c]) \<longleftrightarrow> ?P i \<subseteq> set result" by auto
      ultimately show ?thesis using old by auto
    qed
  qed
  have I6: "\<forall>k<length (result @ [c]). ?P ((result @ [c]) ! k) \<subseteq> set (take k (result @ [c]))"
  proof (intro allI impI)
    fix k assume k: "k < length (result @ [c])"
    show "?P ((result @ [c]) ! k) \<subseteq> set (take k (result @ [c]))"
    proof (cases "k < length result")
      case True
      with ord show ?thesis by (simp add: nth_append)
    next
      case False
      with k have "k = length result" by simp
      moreover have "c \<in> set (result @ c # queue)" by simp
      with mem c have "?P c \<subseteq> set result" by blast
      ultimately show ?thesis by simp
    qed
  qed
  from I1 I2 I3 I4 I5 I6 have "kahn_inv deps indeg' (queue @ ?new) (result @ [c])"
    unfolding kahn_inv_def by blast
  with run show ?thesis by blast
qed

lemma kahn_loop_spec:
  "adjacency_of deps adj \<Longrightarrow> kahn_inv deps indeg queue result
     \<Longrightarrow> \<exists>r indeg'. kahn_loop adj indeg queue result = Inr r \<and> kahn_inv deps indeg' [] r"
proof (induction adj indeg queue result rule: kahn_loop.induct)
  case (1 adjacency in_degree result)
  then show ?case by auto
next
  case (2 adjacency in_degree current queue result)
  from 2(3) have c: "current < length adjacency"
    using 2(2) by (simp add: kahn_inv_def adjacency_of_def)
  from kahn_step [OF 2(3) 2(2)] obtain indeg' queue' where
    run: "relax (adjacency ! current) in_degree queue = Inr (indeg', queue')"
    and inv': "kahn_inv deps indeg' queue' (result @ [current])"
    by blast
  from 2(1) [OF c run refl 2(2) inv'] obtain r indeg'' where
    "kahn_loop adjacency indeg' queue' (result @ [current]) = Inr r"
    and "kahn_inv deps indeg'' [] r"
    by blast
  with c run show ?case by auto
qed

lemma position_nth: "distinct xs \<Longrightarrow> p < length xs \<Longrightarrow> position xs (xs ! p) = p"
proof (induction xs arbitrary: p)
  case Nil
  then show ?case by simp
next
  case (Cons x xs)
  then show ?case by (cases p) auto
qed

lemma kahn_initial:
  assumes wf: "well_formed deps"
    and len: "length indeg = length deps"
    and deg: "\<forall>i<length deps. indeg ! i = int (length (deps ! i))"
  shows "kahn_inv deps indeg (filter (\<lambda>i. indeg ! i = 0) [0..<length deps]) []"
proof -
  have card: "\<And>i. i < length deps \<Longrightarrow> card (set (deps ! i)) = length (deps ! i)"
    using wf by (simp add: well_formed_def distinct_card)
  have "\<forall>i<length deps. indeg ! i = int (card (set (deps ! i) - set []))"
    using deg card by simp
  moreover have "\<forall>i<length deps.
      i \<in> set ([] @ filter (\<lambda>i. indeg ! i = 0) [0..<length deps]) \<longleftrightarrow> set (deps ! i) \<subseteq> set []"
    using deg by simp
  ultimately show ?thesis using len unfolding kahn_inv_def by simp
qed

lemma topological_sort_spec:
  assumes wf: "well_formed deps"
  shows "\<exists>r indeg. kahn_inv deps indeg [] r \<and>
           topological_sort deps (length deps)
             = Inr (if length r \<noteq> length deps then None else Some r)"
proof -
  let ?n = "length deps"
  have "\<exists>indeg adj. build_graph (List.enumerate 0 (drop 0 deps)) (replicate ?n 0) (replicate ?n [])
            = Inr (indeg, adj) \<and> length indeg = ?n \<and>
          (\<forall>i<?n. indeg ! i = int (length (deps ! i))) \<and> adjacency_of deps adj"
    by (rule build_graph_spec [OF wf]) simp_all
  then obtain indeg adj where
    build: "build_graph (List.enumerate 0 deps) (replicate ?n 0) (replicate ?n []) = Inr (indeg, adj)"
    and len: "length indeg = ?n"
    and deg: "\<forall>i<?n. indeg ! i = int (length (deps ! i))"
    and adj: "adjacency_of deps adj"
    by auto
  from kahn_loop_spec [OF adj kahn_initial [OF wf len deg]] obtain r indeg' where
    loop: "kahn_loop adj indeg (filter (\<lambda>i. indeg ! i = 0) [0..<?n]) [] = Inr r"
    and inv: "kahn_inv deps indeg' [] r"
    by blast
  from build loop have "topological_sort deps ?n = Inr (if length r \<noteq> ?n then None else Some r)"
    by (simp add: topological_sort_def)
  with inv show ?thesis by blast
qed

lemma kahn_final_order:
  assumes inv: "kahn_inv deps indeg [] r" and full: "length r = length deps"
  shows "topological_order deps r"
proof -
  let ?n = "length deps"
  from inv have dist: "distinct r" and bound: "set r \<subseteq> {0..<?n}"
    and ord: "\<forall>k<length r. set (deps ! (r ! k)) \<subseteq> set (take k r)"
    by (auto simp: kahn_inv_def)
  have "card (set r) = card {0..<?n}" using dist full by (simp add: distinct_card)
  with bound have all: "set r = {0..<?n}" by (simp add: card_subset_eq)
  then have "set r = set [0..<?n]" by simp
  with dist have perm: "mset r = mset [0..<?n]"
    by (metis distinct_upt set_eq_iff_mset_eq_distinct)
  have "\<forall>i<?n. \<forall>j \<in> set (deps ! i). position r j < position r i"
  proof (intro allI impI ballI)
    fix i j assume i: "i < ?n" and j: "j \<in> set (deps ! i)"
    from i all have "i \<in> set r" by simp
    then obtain q where q: "q < length r" and rq: "r ! q = i"
      by (auto simp: in_set_conv_nth)
    from ord q rq j have "j \<in> set (take q r)" by blast
    then obtain p where p: "p < q" and rp: "r ! p = j"
      using q by (auto simp: in_set_conv_nth)
    from position_nth [OF dist q] rq have "position r i = q" by simp
    moreover from position_nth [OF dist, of p] p q rp have "position r j = p" by simp
    ultimately show "position r j < position r i" using p by simp
  qed
  with perm show ?thesis by (simp add: topological_order_def)
qed

lemma topological_order_acyclic:
  assumes "topological_order deps ord"
  shows "acyclic (edges deps)"
proof -
  from assms have "edges deps \<subseteq> inv_image less_than (position ord)"
    by (auto simp: edges_def topological_order_def)
  moreover have "wf (inv_image less_than (position ord))"
    by (rule wf_inv_image) (rule wf_less_than)
  ultimately have "wf (edges deps)" by (rule wf_subset [rotated])
  then show ?thesis by (rule wf_acyclic)
qed

lemma finite_edges: "well_formed deps \<Longrightarrow> finite (edges deps)"
proof -
  assume wf: "well_formed deps"
  have "edges deps \<subseteq> {0..<length deps} \<times> {0..<length deps}"
    using wf nth_mem [of _ deps] by (fastforce simp: edges_def well_formed_def)
  then show ?thesis by (rule finite_subset) simp
qed

lemma kahn_final_complete:
  assumes inv: "kahn_inv deps indeg [] r" and wf: "well_formed deps"
    and acyc: "acyclic (edges deps)"
  shows "length r = length deps"
proof (rule ccontr)
  let ?n = "length deps"
  assume short: "length r \<noteq> ?n"
  from inv have dist: "distinct r" and bound: "set r \<subseteq> {0..<?n}"
    and mem: "\<forall>i<?n. i \<in> set r \<longleftrightarrow> set (deps ! i) \<subseteq> set r"
    by (auto simp: kahn_inv_def)
  have "set r \<noteq> {0..<?n}"
  proof
    assume "set r = {0..<?n}"
    then have "card (set r) = ?n" by simp
    with dist short show False by (simp add: distinct_card)
  qed
  with bound have "\<exists>x. x < ?n \<and> x \<notin> set r" by fastforce
  then obtain x where x: "x < ?n" "x \<notin> set r" by blast
  let ?U = "{i. i < ?n \<and> i \<notin> set r}"
  from finite_edges [OF wf] acyc have "wf (edges deps)" by (rule finite_acyclic_wf)
  moreover from x have "x \<in> ?U" by simp
  ultimately obtain z where z: "z \<in> ?U" and least: "\<And>y. (y, z) \<in> edges deps \<Longrightarrow> y \<notin> ?U"
    by (rule wfE_min) blast
  from z mem have "\<not> set (deps ! z) \<subseteq> set r" by blast
  then obtain y where y: "y \<in> set (deps ! z)" "y \<notin> set r" by blast
  from z have "deps ! z \<in> set deps" by simp
  with wf y have "y < ?n" by (auto simp: well_formed_def)
  moreover from y z have "(y, z) \<in> edges deps" by (simp add: edges_def)
  ultimately show False using least y by blast
qed

lemma topological_sort_correct:
  assumes wf: "well_formed deps"
  shows "(acyclic (edges deps) \<longrightarrow>
            (\<exists>ord. topological_sort deps (length deps) = Inr (Some ord) \<and> topological_order deps ord))
       \<and> (\<not> acyclic (edges deps) \<longrightarrow> topological_sort deps (length deps) = Inr None)"
proof -
  from topological_sort_spec [OF wf] obtain r indeg where
    inv: "kahn_inv deps indeg [] r"
    and run: "topological_sort deps (length deps)
                = Inr (if length r \<noteq> length deps then None else Some r)"
    by blast
  show ?thesis
  proof (intro conjI impI)
    assume "acyclic (edges deps)"
    from kahn_final_complete [OF inv wf this] have full: "length r = length deps" .
    with run kahn_final_order [OF inv full]
    show "\<exists>ord. topological_sort deps (length deps) = Inr (Some ord) \<and> topological_order deps ord"
      by simp
  next
    assume cyc: "\<not> acyclic (edges deps)"
    have "length r \<noteq> length deps"
    proof
      assume "length r = length deps"
      from topological_order_acyclic [OF kahn_final_order [OF inv this]] cyc show False
        by contradiction
    qed
    with run show "topological_sort deps (length deps) = Inr None" by simp
  qed
qed

lemma topological_order_bound:
  assumes "topological_order deps ord"
  shows "set ord = {0..<length deps}" and "distinct ord" and "length ord = length deps"
proof -
  from assms have perm: "mset ord = mset [0..<length deps]" by (simp add: topological_order_def)
  from mset_eq_setD [OF perm] show "set ord = {0..<length deps}" by simp
  from perm show "distinct ord" by (metis distinct_upt mset_eq_imp_distinct_iff)
  from mset_eq_length [OF perm] show "length ord = length deps" by simp
qed

lemma edges_ranked_acyclic:
  assumes "\<forall>i<length deps. \<forall>j \<in> set (deps ! i). rank j < (rank i :: nat)"
  shows "acyclic (edges deps)"
proof -
  from assms have "edges deps \<subseteq> inv_image less_than rank"
    by (auto simp: edges_def)
  moreover have "wf (inv_image less_than rank)"
    by (rule wf_inv_image) (rule wf_less_than)
  ultimately have "wf (edges deps)" by (rule wf_subset [rotated])
  then show ?thesis by (rule wf_acyclic)
qed

lemma position_map:
  assumes "inj_on f (insert x (set xs))"
  shows "position (map f xs) (f x) = position xs x"
  using assms
proof (induction xs)
  case Nil
  then show ?case by simp
next
  case (Cons y ys)
  from Cons.prems have "inj_on f (insert x (set ys))"
    by (rule inj_on_subset) auto
  from Cons.IH [OF this] Cons.prems show ?case
    by (auto simp: inj_on_def)
qed

section \<open>The resolvers\<close>

lemma analyze_with_keywords_frame: "snd (analyze_with_keywords self ts) = ts"
  by (simp add: analyze_with_keywords_def Let_def)

lemma analyze_with_ai_frame: "snd (analyze_with_ai self ts) = ts"
  by (simp add: analyze_with_ai_def analyze_with_keywords_def Let_def split: reply.splits)

lemma analyze_dependencies_frame: "snd (analyze_dependencies self ts) = ts"
proof -
  obtain r ts' where ai: "analyze_with_ai self ts = (r, ts')" by (cases "analyze_with_ai self ts")
  with analyze_with_ai_frame [of self ts] have "ts' = ts" by simp
  with ai show ?thesis
    by (simp add: analyze_dependencies_def analyze_with_keywords_def Let_def split: sum.splits)
qed

lemma keywords_relation:
  "fst (analyze_with_keywords self ts) =
     map (\<lambda>i. set_order self
                 (filter (\<lambda>j. i \<noteq> j \<and> task_phase (ts ! j) < task_phase (ts ! i)) [0..<length ts]))
         [0..<length ts]"
proof -
  have "filter (\<lambda>j. i \<noteq> j \<and> map task_phase ts ! j < map task_phase ts ! i) [0..<length ts]
          = filter (\<lambda>j. i \<noteq> j \<and> task_phase (ts ! j) < task_phase (ts ! i)) [0..<length ts]"
    if "i < length ts" for i
    using that by (intro filter_cong) auto
  then show ?thesis
    by (simp add: analyze_with_keywords_def Let_def)
qed

lemma keywords_length: "length (fst (analyze_with_keywords self ts)) = length ts"
  by (simp add: keywords_relation)

lemma keywords_member:
  assumes "set_order_ok self" and "i < length ts"
  shows "j \<in> set (fst (analyze_with_keywords self ts) ! i)
           \<longleftrightarrow> j < length ts \<and> i \<noteq> j \<and> task_phase (ts ! j) < task_phase (ts ! i)"
  using assms by (auto simp: keywords_relation set_order_ok_def)

lemma keywords_well_formed:
  assumes ok: "set_order_ok self"
  shows "well_formed (fst (analyze_with_keywords self ts))"
  unfolding well_formed_def
proof (intro ballI conjI)
  fix ps assume "ps \<in> set (fst (analyze_with_keywords self ts))"
  then obtain i where i: "i < length ts" and ps: "ps = fst (analyze_with_keywords self ts) ! i"
    by (auto simp: in_set_conv_nth keywords_length)
  from ok i ps show "distinct ps" by (simp add: keywords_relation set_order_ok_def)
  fix j assume "j \<in> set ps"
  with keywords_member [OF ok i] ps show "j < length (fst (analyze_with_keywords self ts))"
    by (simp add: keywords_length)
qed

lemma keywords_acyclic:
  assumes ok: "set_order_ok self"
  shows "acyclic (edges (fst (analyze_with_keywords self ts)))"
proof -
  let ?rel = "fst (analyze_with_keywords self ts)"
  have "edges ?rel \<subseteq> inv_image less_than (\<lambda>i. task_phase (ts ! i))"
    using keywords_member [OF ok] by (auto simp: edges_def keywords_length)
  moreover have "wf (inv_image less_than (\<lambda>i. task_phase (ts ! i)))"
    by (rule wf_inv_image) (rule wf_less_than)
  ultimately have "wf (edges ?rel)" by (rule wf_subset [rotated])
  then show ?thesis by (rule wf_acyclic)
qed

lemma collect_prereqs_bound:
  "collect_prereqs n xs = Inr ks \<Longrightarrow> \<forall>j \<in> set ks. j < n"
proof (induction xs arbitrary: ks)
  case Nil
  then show ?case by simp
next
  case (Cons x xs)
  then show ?case by (auto split: sum.splits if_splits)
qed

lemma prereqs_of_key_sound:
  assumes ok: "set_order_ok self" and run: "prereqs_of_key self deps n i = Inr ps"
  shows "distinct ps \<and> (\<forall>j \<in> set ps. j < n)"
proof -
  from run consider "ps = []"
    | ks where "ps = set_order self ks" and "\<forall>j \<in> set ks. j < n"
    by (auto simp: prereqs_of_key_def Let_def split: sum.splits bool.splits
             dest: collect_prereqs_bound)
  then show ?thesis
    using ok by cases (auto simp: set_order_ok_def)
qed

lemma convert_keys_nth:
  "convert_keys f ks = Inr rel
     \<Longrightarrow> length rel = length ks \<and> (\<forall>k<length ks. f (ks ! k) = Inr (rel ! k))"
proof (induction ks arbitrary: rel)
  case Nil
  then show ?case by simp
next
  case (Cons i ks)
  from Cons.prems obtain ps others where
    head: "f i = Inr ps" and tail: "convert_keys f ks = Inr others" and rel: "rel = ps # others"
    by (auto split: sum.splits)
  from Cons.IH [OF tail] head rel show ?case
    by (auto simp: nth_Cons split: nat.splits)
qed

lemma convert_reply_well_formed:
  assumes ok: "set_order_ok self" and run: "convert_reply self data n = Inr rel"
  shows "length rel = n \<and> well_formed rel"
proof -
  from run obtain deps where conv: "convert_keys (prereqs_of_key self deps n) [0..<n] = Inr rel"
    by (auto simp: convert_reply_def Let_def split: json.splits)
  from convert_keys_nth [OF conv]
  have len: "length rel = n"
    and each: "\<forall>k<n. prereqs_of_key self deps n k = Inr (rel ! k)"
    by auto
  have "\<forall>ps \<in> set rel. distinct ps \<and> (\<forall>j \<in> set ps. j < length rel)"
  proof
    fix ps assume "ps \<in> set rel"
    then obtain k where k: "k < n" and ps: "ps = rel ! k"
      using len by (auto simp: in_set_conv_nth)
    from each k ps have "prereqs_of_key self deps n k = Inr ps" by simp
    from prereqs_of_key_sound [OF ok this] len
    show "distinct ps \<and> (\<forall>j \<in> set ps. j < length rel)" by simp
  qed
  with len show ?thesis by (simp add: well_formed_def)
qed

text \<open>What \<^verbatim>\<open>analyze_dependencies\<close> returns, case by case.\<close>

lemma analyze_dependencies_cases:
  "fst (analyze_dependencies self ts) =
     (if length ts \<le> 1 then Inr (map (\<lambda>i. []) [0..<length ts])
      else if use_ai self then
        (case client self ts of
           Decoded data \<Rightarrow>
             (case convert_reply self data (length ts) of
                Inr rel \<Rightarrow> Inr rel
              | Inl e \<Rightarrow> Inr (fst (analyze_with_keywords self ts)))
         | _ \<Rightarrow> Inr (fst (analyze_with_keywords self ts)))
      else Inr (fst (analyze_with_keywords self ts)))"
  by (simp add: analyze_dependencies_def analyze_with_ai_def analyze_with_keywords_def Let_def
           split: reply.splits sum.splits)

lemma analyze_dependencies_well_formed:
  assumes ok: "set_order_ok self"
  shows "\<exists>rel. analyze_dependencies self ts = (Inr rel, ts) \<and> length rel = length ts
               \<and> well_formed rel"
proof -
  let ?kw = "fst (analyze_with_keywords self ts)"
  have kw: "length ?kw = length ts \<and> well_formed ?kw"
    using keywords_well_formed [OF ok] keywords_length by blast
  have triv: "length (map (\<lambda>i. []) [0..<length ts] :: relation) = length ts
                \<and> well_formed (map (\<lambda>i. []) [0..<length ts])"
    by (auto simp: well_formed_def)
  have "\<exists>rel. fst (analyze_dependencies self ts) = Inr rel \<and> length rel = length ts
               \<and> well_formed rel"
    unfolding analyze_dependencies_cases
    using kw triv convert_reply_well_formed [OF ok]
    by (auto split: reply.splits sum.splits)
  with analyze_dependencies_frame [of self ts] show ?thesis
    by (cases "analyze_dependencies self ts") auto
qed

lemma collect_prereqs_ints:
  "collect_prereqs n (map JInt ks)
     = Inr (map (\<lambda>k. nat (k - 1)) (filter (\<lambda>k. 1 \<le> k \<and> k \<le> int n) ks))"
  by (induction ks) auto

lemma contains_key_dict: "contains_key (JDict items) key = Inr (map_of items key \<noteq> None)"
  by (simp add: map_of_eq_None_iff)

subsection \<open>The phase of a task\<close>

lemma matched_Nil: "matched [] txt = {}"
  by (simp add: matched_def)

lemma matched_Cons:
  "matched ((a, p) # table) txt
     = (if sublist a txt then insert p (matched table txt) else matched table txt)"
  by (auto simp: matched_def)

lemma finite_matched: "finite (matched table txt)"
proof (rule finite_subset)
  show "matched table txt \<subseteq> snd ` set table" by (force simp: matched_def)
qed simp

lemma scan_actions_min:
  "scan_actions table txt m =
     (if matched table txt = {} then m else min m (enat (Min (matched table txt))))"
proof (induction table arbitrary: m)
  case Nil
  then show ?case by (simp add: matched_Nil)
next
  case (Cons entry table)
  obtain a p where entry: "entry = (a, p)" by (cases entry)
  show ?case
  proof (cases "sublist a txt")
    case hit: True
    show ?thesis
    proof (cases "matched table txt = {}")
      case True
      with hit entry Cons.IH [of "min m (enat p)"] show ?thesis
        by (simp add: matched_Cons)
    next
      case False
      with finite_matched have "Min (insert p (matched table txt)) = min p (Min (matched table txt))"
        by simp
      then have "enat (Min (insert p (matched table txt)))
                   = min (enat p) (enat (Min (matched table txt)))"
        by (simp add: min_def)
      with False hit entry Cons.IH [of "min m (enat p)"] show ?thesis
        by (simp add: matched_Cons min.assoc)
    qed
  next
    case False
    with entry Cons.IH [of m] show ?thesis by (simp add: matched_Cons)
  qed
qed

lemma task_phase_min:
  "task_phase task = (if matching_phases task = {} then 5 else Min (matching_phases task))"
  by (simp add: task_phase_def matching_phases_def scan_actions_min Let_def)

lemma least_matched_phase:
  "(if matched table txt = {} then 5 else Min (matched table txt))
     = (let m = scan_actions table txt \<infinity> in if m \<noteq> \<infinity> then the_enat m else 5)"
  by (simp add: scan_actions_min Let_def)

section \<open>The plan\<close>

lemma read_names_total:
  "\<forall>j \<in> set js. j < length ts \<Longrightarrow> \<exists>names. read_names ts js = Inr names"
  by (induction js) auto

lemma describe_dependencies_total:
  assumes wf: "well_formed deps" and len: "length deps = length ts"
  shows "\<forall>i \<in> set ks. i < length ts \<Longrightarrow> \<exists>shown. describe_dependencies deps ts ks = Inr shown"
proof (induction ks)
  case Nil
  then show ?case by simp
next
  case (Cons i ks)
  then have i: "i < length deps" using len by simp
  then have "deps ! i \<in> set deps" by simp
  with wf len have "\<forall>j \<in> set (deps ! i). j < length ts" by (simp add: well_formed_def)
  from read_names_total [OF this] obtain names where "read_names ts (deps ! i) = Inr names" ..
  moreover from Cons obtain shown where "describe_dependencies deps ts ks = Inr shown" by auto
  ultimately show ?case using i by simp
qed

text \<open>The two plans that \<^verbatim>\<open>generate_plan\<close> builds for a task list that is not empty.\<close>

lemma generate_plan_cases:
  assumes ok: "set_order_ok self" and ne: "ts \<noteq> []"
  shows "\<exists>rel. analyze_dependencies self ts = (Inr rel, ts) \<and> length rel = length ts
           \<and> well_formed rel
           \<and> (acyclic (edges rel) \<longrightarrow>
                (\<exists>ord. topological_order rel ord \<and>
                   generate_plan self ts =
                     (Inr \<lparr>execution_order = map (\<lambda>i. task_id (ts ! i)) ord, is_valid = True,
                           error_message = [],
                           plan_tasks = map_of (rev (map (\<lambda>i. (task_id (ts ! i), ts ! i)) ord))\<rparr>,
                      ts)))
           \<and> (\<not> acyclic (edges rel) \<longrightarrow>
                generate_plan self ts =
                  (Inr \<lparr>execution_order = [], is_valid = False,
                        error_message = ''Circular dependency detected among tasks'',
                        plan_tasks = Map.empty\<rparr>, ts))"
proof -
  from analyze_dependencies_well_formed [OF ok, of ts] obtain rel where
    dep: "analyze_dependencies self ts = (Inr rel, ts)" and len: "length rel = length ts"
    and wf: "well_formed rel"
    by blast
  from describe_dependencies_total [OF wf len, of "[0..<length ts]"] obtain shown where
    shown: "describe_dependencies rel ts [0..<length ts] = Inr shown"
    by auto
  have sort: "topological_sort rel (length ts) = topological_sort rel (length rel)"
    using len by simp
  have acyc: "\<exists>ord. topological_order rel ord \<and>
                   generate_plan self ts =
                     (Inr \<lparr>execution_order = map (\<lambda>i. task_id (ts ! i)) ord, is_valid = True,
                           error_message = [],
                           plan_tasks = map_of (rev (map (\<lambda>i. (task_id (ts ! i), ts ! i)) ord))\<rparr>,
                      ts)" if "acyclic (edges rel)"
  proof -
    from topological_sort_correct [OF wf] that obtain ord where
      run: "topological_sort rel (length rel) = Inr (Some ord)"
      and ord: "topological_order rel ord"
      by blast
    from topological_order_bound(1) [OF ord] len have "\<forall>i \<in> set ord. i < length ts" by simp
    with ne dep shown run sort have "generate_plan self ts =
        (Inr \<lparr>execution_order = map (\<lambda>i. task_id (ts ! i)) ord, is_valid = True,
              error_message = [],
              plan_tasks = map_of (rev (map (\<lambda>i. (task_id (ts ! i), ts ! i)) ord))\<rparr>, ts)"
      by (simp add: generate_plan_def Let_def comp_def)
    with ord show ?thesis by blast
  qed
  have cyc: "generate_plan self ts =
                  (Inr \<lparr>execution_order = [], is_valid = False,
                        error_message = ''Circular dependency detected among tasks'',
                        plan_tasks = Map.empty\<rparr>, ts)" if "\<not> acyclic (edges rel)"
  proof -
    from topological_sort_correct [OF wf] that
    have "topological_sort rel (length rel) = Inr None" by blast
    with ne dep shown sort show ?thesis by (simp add: generate_plan_def)
  qed
  from dep len wf acyc cyc show ?thesis by blast
qed

lemma generate_plan_sorted:
  assumes ok: "set_order_ok self" and ne: "ts \<noteq> []"
    and rel: "fst (analyze_dependencies self ts) = Inr rel"
    and sorted: "topological_sort rel (length ts) = Inr (Some ord)"
  shows "generate_plan self ts =
           (Inr \<lparr>execution_order = map (\<lambda>i. task_id (ts ! i)) ord, is_valid = True,
                 error_message = [],
                 plan_tasks = map_of (rev (map (\<lambda>i. (task_id (ts ! i), ts ! i)) ord))\<rparr>, ts)"
proof -
  from analyze_dependencies_well_formed [OF ok, of ts] rel
  have dep: "analyze_dependencies self ts = (Inr rel, ts)" and len: "length rel = length ts"
    and wf: "well_formed rel"
    by auto
  from describe_dependencies_total [OF wf len, of "[0..<length ts]"] obtain shown where
    shown: "describe_dependencies rel ts [0..<length ts] = Inr shown"
    by auto
  from topological_sort_correct [OF wf] sorted len have "topological_order rel ord"
    by (cases "acyclic (edges rel)") auto
  from topological_order_bound(1) [OF this] len have "\<forall>i \<in> set ord. i < length ts" by simp
  with ne dep shown sorted show ?thesis
    by (simp add: generate_plan_def Let_def comp_def)
qed

lemma generate_plan_frame: "snd (generate_plan self ts) = ts"
proof -
  obtain r ts' where dep: "analyze_dependencies self ts = (r, ts')"
    by (cases "analyze_dependencies self ts")
  with analyze_dependencies_frame [of self ts] have same: "ts' = ts" by simp
  show ?thesis
  proof (cases "ts = []")
    case True
    then show ?thesis by (simp add: generate_plan_def)
  next
    case ne: False
    show ?thesis
    proof (cases r)
      case (Inl e)
      with ne dep same show ?thesis by (simp add: generate_plan_def)
    next
      case (Inr deps)
      show ?thesis
      proof (cases "describe_dependencies deps ts [0..<length ts]")
        case (Inl e)
        with ne dep same Inr show ?thesis by (simp add: generate_plan_def)
      next
        case shown: (Inr names)
        show ?thesis
        proof (cases "topological_sort deps (length ts)")
          case (Inl e)
          with ne dep same Inr shown show ?thesis by (simp add: generate_plan_def)
        next
          case sorted: (Inr found)
          show ?thesis
          proof (cases found)
            case None
            with ne dep same Inr shown sorted show ?thesis by (simp add: generate_plan_def)
          next
            case (Some ord)
            with ne dep same Inr shown sorted show ?thesis
              by (simp add: generate_plan_def Let_def)
          qed
        qed
      qed
    qed
  qed
qed

lemma task_ids_inj:
  assumes "distinct (map task_id ts)"
  shows "inj_on (\<lambda>i. task_id (ts ! i)) {0..<length ts}"
proof (rule inj_onI)
  fix i j assume "i \<in> {0..<length ts}" "j \<in> {0..<length ts}" "task_id (ts ! i) = task_id (ts ! j)"
  then have ij: "i < length (map task_id ts)" "j < length (map task_id ts)"
    and same: "map task_id ts ! i = map task_id ts ! j" by simp_all
  from nth_eq_iff_index_eq [OF assms ij] same show "i = j" by blast
qed

section \<open>The examples, evaluated\<close>

lemma scripted_planner_ok: "set_order_ok (scripted_planner r)"
  by (simp add: scripted_planner_def set_order_ok_def)

lemma keyword_planner_ok: "set_order_ok keyword_planner"
  by (simp add: keyword_planner_def set_order_ok_def)

lemma keyword_planner_fallback:
  "fst (analyze_dependencies keyword_planner ts) = Inr (fst (analyze_with_keywords keyword_planner ts))"
proof (cases "length ts \<le> 1")
  case True
  then consider "ts = []" | t where "ts = [t]"
    by (cases ts) auto
  then show ?thesis
    by cases (simp_all add: analyze_dependencies_cases keywords_relation keyword_planner_def)
next
  case False
  then show ?thesis by (simp add: analyze_dependencies_cases keyword_planner_def)
qed

lemma reversed_reply_relation:
  "fst (analyze_dependencies
          (scripted_planner (reply_of [(''1'', [3]), (''2'', []), (''3'', [2])])) report_tasks)
     = Inr [[2], [], [1]]"
  by (simp add: analyze_dependencies_cases scripted_planner_def reply_of_def report_tasks_def
        convert_reply_def prereqs_of_key_def str_nat.simps upt_rec)

lemma cyclic_reply_relation:
  "fst (analyze_dependencies
          (scripted_planner (reply_of [(''1'', [2]), (''2'', [1])])) report_tasks)
     = Inr [[1], [0], []]"
  by (simp add: analyze_dependencies_cases scripted_planner_def reply_of_def report_tasks_def
        convert_reply_def prereqs_of_key_def str_nat.simps upt_rec)

lemma two_cycle: "\<not> acyclic (edges [[1], [0], []])"
proof -
  have "(0, 1) \<in> edges [[1], [0], []]" and "(1, 0) \<in> edges [[1], [0], []]"
    by (simp_all add: edges_def)
  then have "(0, 0) \<in> (edges [[1], [0], []])\<^sup>+" by (rule trancl_trans [OF r_into_trancl r_into_trancl])
  then show ?thesis by (auto simp: acyclic_def)
qed

lemma cyclic_plan:
  "generate_plan (scripted_planner (reply_of [(''1'', [2]), (''2'', [1])])) report_tasks =
     (Inr \<lparr>execution_order = [], is_valid = False,
           error_message = ''Circular dependency detected among tasks'',
           plan_tasks = Map.empty\<rparr>, report_tasks)"
proof -
  have ne: "report_tasks \<noteq> []" by (simp add: report_tasks_def)
  from generate_plan_cases [OF scripted_planner_ok ne] cyclic_reply_relation two_cycle show ?thesis
    by fastforce
qed

lemma report_phases: "map task_phase report_tasks = [2, 4, 7]"
  by (simp add: report_tasks_def new_task_def task_phase_def task_text_of_def lower_def
        lower_char_def action_phases_def sublist_Cons_right)

lemma errand_phases: "map task_phase errand_tasks = [5, 5]"
  by (simp add: errand_tasks_def new_task_def task_phase_def task_text_of_def lower_def
        lower_char_def action_phases_def sublist_Cons_right)

lemma distinct_singleton:
  assumes "distinct xs" and "set xs = {a}"
  shows "xs = [a]"
proof -
  from assms have "length xs = 1" using distinct_card [of xs] by simp
  then obtain x where "xs = [x]" by (cases xs) auto
  with assms show ?thesis by simp
qed

lemma distinct_pair:
  assumes "distinct xs" and "set xs = {a, b}" and "a \<noteq> b"
  shows "xs = [a, b] \<or> xs = [b, a]"
proof -
  from assms have "length xs = 2" using distinct_card [of xs] by simp
  then obtain x y where "xs = [x, y]"
    by (cases xs; cases "tl xs") auto
  with assms show ?thesis by (auto simp: doubleton_eq_iff)
qed

lemma report_relation:
  assumes ok: "set_order_ok self"
  shows "fst (analyze_with_keywords self report_tasks) = [[], [0], [0, 1]]
       \<or> fst (analyze_with_keywords self report_tasks) = [[], [0], [1, 0]]"
proof -
  have len: "length report_tasks = 3" by (simp add: report_tasks_def)
  have "\<forall>i<3. map task_phase report_tasks ! i = [2, 4, 7] ! i"
    using report_phases by simp
  then have ph: "task_phase (report_tasks ! 0) = 2" "task_phase (report_tasks ! Suc 0) = 4"
    "task_phase (report_tasks ! Suc (Suc 0)) = 7"
    using len by (simp_all add: numeral_3_eq_3)
  have rel: "fst (analyze_with_keywords self report_tasks)
               = [set_order self [], set_order self [0], set_order self [0, 1]]"
    by (simp add: keywords_relation len upt_rec ph)
  from ok have "set (set_order self []) = set []" unfolding set_order_ok_def by blast
  then have e: "set_order self [] = []" by simp
  from ok have "distinct (set_order self [0]) \<and> set (set_order self [0]) = set [0]"
    unfolding set_order_ok_def by blast
  then have "distinct (set_order self [0])" "set (set_order self [0]) = {0}" by simp_all
  then have s: "set_order self [0] = [0]" by (rule distinct_singleton)
  from ok have "distinct (set_order self [0, 1]) \<and> set (set_order self [0, 1]) = set [0, 1]"
    unfolding set_order_ok_def by blast
  then have "distinct (set_order self [0, 1])" "set (set_order self [0, 1]) = {0, 1}"
    by simp_all
  then have "set_order self [0, 1] = [0, 1] \<or> set_order self [0, 1] = [1, 0]"
    by (rule distinct_pair) simp
  with rel e s show ?thesis by auto
qed

lemma report_sort:
  "topological_sort [[], [0], [0, 1]] 3 = Inr (Some [0, 1, 2])"
  "topological_sort [[], [0], [1, 0]] 3 = Inr (Some [0, 1, 2])"
  by code_simp+

lemma report_plan:
  assumes ok: "set_order_ok self"
    and fallback: "fst (analyze_dependencies self report_tasks)
                     = Inr (fst (analyze_with_keywords self report_tasks))"
  shows "generate_plan self report_tasks =
           (Inr \<lparr>execution_order = [''task_0'', ''task_1'', ''task_2''], is_valid = True,
                 error_message = [],
                 plan_tasks = map_of (rev (map (\<lambda>i. (task_id (report_tasks ! i), report_tasks ! i))
                                             [0, 1, 2]))\<rparr>,
            report_tasks)"
proof -
  have len: "length report_tasks = 3" and ne: "report_tasks \<noteq> []"
    by (simp_all add: report_tasks_def)
  have ids: "map (\<lambda>i. task_id (report_tasks ! i)) [0, 1, 2] = [''task_0'', ''task_1'', ''task_2'']"
    by (simp add: report_tasks_def new_task_def)
  from report_relation [OF ok] report_sort
  have "topological_sort (fst (analyze_with_keywords self report_tasks)) (length report_tasks)
          = Inr (Some [0, 1, 2])"
    unfolding len by auto
  from generate_plan_sorted [OF ok ne fallback this] ids show ?thesis by simp
qed

lemma transport_error_raises:
  "fst (analyze_with_ai (scripted_planner (Raised ClientError)) ts) = Inl ClientError"
  by (simp add: analyze_with_ai_def scripted_planner_def)

lemma bad_entry_raises:
  "fst (analyze_with_ai
          (scripted_planner (Decoded (JDict [(''dependencies'', JDict [(''1'', JList [JStr ''two''])])])))
          report_tasks) = Inl TypeError"
  by (simp add: analyze_with_ai_def scripted_planner_def convert_reply_def prereqs_of_key_def
        report_tasks_def str_nat.simps upt_rec)

lemma bad_object_raises:
  "fst (analyze_with_ai (scripted_planner (Decoded (JList []))) ts) = Inl AttributeError"
  by (simp add: analyze_with_ai_def scripted_planner_def convert_reply_def)

lemma listed_example_keys:
  "map_of listed_example (str_nat (0 + 1)) = Some (JList (map JInt [2, 5, 0]))"
  "map_of listed_example (str_nat (1 + 1)) = None"
  "map_of listed_example (str_nat (2 + 1)) = Some (JList (map JInt [1, 1, - 4, 3]))"
  by (simp_all add: listed_example_def str_nat.simps)

lemma listed_example_ints:
  "\<forall>i<length report_tasks. \<forall>v.
      map_of listed_example (str_nat (i + 1)) = Some v \<longrightarrow> (\<exists>ks. v = JList (map JInt ks))"
proof (intro allI impI)
  fix i v
  assume "i < length report_tasks" and "map_of listed_example (str_nat (i + 1)) = Some v"
  then have "v = JList (map JInt [2, 5, 0]) \<or> v = JList (map JInt [1, 1, - 4, 3])"
    by (auto simp: listed_example_def split: if_splits)
  then show "\<exists>ks. v = JList (map JInt ks)" by blast
qed

section \<open>The claims\<close>

lemma plan_of_acyclic_relation:
  assumes ok: "set_order_ok self"
    and rel: "fst (analyze_dependencies self ts) = Inr deps"
    and acyc: "acyclic (edges deps)"
  shows "\<exists>plan ord.
           generate_plan self ts = (Inr plan, ts) \<and> is_valid plan \<and>
           execution_order plan = map (\<lambda>i. task_id (ts ! i)) ord \<and>
           mset ord = mset [0..<length ts] \<and>
           (\<forall>i<length ts. \<forall>j \<in> set (deps ! i).
              position ord j < position ord i \<and>
              (distinct (map task_id ts) \<longrightarrow>
                 position (execution_order plan) (task_id (ts ! j))
                   < position (execution_order plan) (task_id (ts ! i))))"
proof (cases "ts = []")
  case True
  then show ?thesis by (simp add: generate_plan_def)
next
  case False
  from generate_plan_cases [OF ok False] obtain rel' where
    dep: "analyze_dependencies self ts = (Inr rel', ts)"
    and len': "length rel' = length ts" and wf': "well_formed rel'"
    and good: "acyclic (edges rel') \<longrightarrow>
                (\<exists>ord. topological_order rel' ord \<and>
                   generate_plan self ts =
                     (Inr \<lparr>execution_order = map (\<lambda>i. task_id (ts ! i)) ord, is_valid = True,
                           error_message = [],
                           plan_tasks = map_of (rev (map (\<lambda>i. (task_id (ts ! i), ts ! i)) ord))\<rparr>,
                      ts))"
    by blast
  from dep rel have same: "rel' = deps" by simp
  from len' wf' same have len: "length deps = length ts" and wf: "well_formed deps" by simp_all
  from good acyc same obtain ord where
    ord: "topological_order deps ord"
    and plan: "generate_plan self ts =
                 (Inr \<lparr>execution_order = map (\<lambda>i. task_id (ts ! i)) ord, is_valid = True,
                       error_message = [],
                       plan_tasks = map_of (rev (map (\<lambda>i. (task_id (ts ! i), ts ! i)) ord))\<rparr>, ts)"
    by blast
  let ?plan = "\<lparr>execution_order = map (\<lambda>i. task_id (ts ! i)) ord, is_valid = True,
                 error_message = [],
                 plan_tasks = map_of (rev (map (\<lambda>i. (task_id (ts ! i), ts ! i)) ord))\<rparr>"
  from ord len have perm: "mset ord = mset [0..<length ts]"
    and before: "\<forall>i<length ts. \<forall>j \<in> set (deps ! i). position ord j < position ord i"
    by (simp_all add: topological_order_def)
  from topological_order_bound(1) [OF ord] len have all: "set ord = {0..<length ts}" by simp
  have "\<forall>i<length ts. \<forall>j \<in> set (deps ! i).
          position ord j < position ord i \<and>
          (distinct (map task_id ts) \<longrightarrow>
             position (execution_order ?plan) (task_id (ts ! j))
               < position (execution_order ?plan) (task_id (ts ! i)))"
  proof (intro allI impI ballI conjI)
    fix i j assume i: "i < length ts" and j: "j \<in> set (deps ! i)"
    from before i j show lt: "position ord j < position ord i" by blast
    assume "distinct (map task_id ts)"
    from task_ids_inj [OF this] have inj: "inj_on (\<lambda>k. task_id (ts ! k)) {0..<length ts}" .
    from i len have "deps ! i \<in> set deps" by simp
    with wf j len have jn: "j < length ts" by (auto simp: well_formed_def)
    from inj all i have "inj_on (\<lambda>k. task_id (ts ! k)) (insert i (set ord))"
      by (simp add: insert_absorb)
    from position_map [OF this]
    have pi: "position (map (\<lambda>k. task_id (ts ! k)) ord) (task_id (ts ! i)) = position ord i" .
    from inj all jn have "inj_on (\<lambda>k. task_id (ts ! k)) (insert j (set ord))"
      by (simp add: insert_absorb)
    from position_map [OF this]
    have pj: "position (map (\<lambda>k. task_id (ts ! k)) ord) (task_id (ts ! j)) = position ord j" .
    from lt pi pj
    show "position (execution_order ?plan) (task_id (ts ! j))
            < position (execution_order ?plan) (task_id (ts ! i))"
      by simp
  qed
  with plan perm show ?thesis by auto
qed

text \<open>
  Claim C1. The sort orders every well-formed relation without a cycle: it returns an
  order of the indices that respects every edge. For every task list and every acyclic
  prerequisite relation over it (the relation that \<^verbatim>\<open>analyze_dependencies\<close> hands to the
  sort), \<^verbatim>\<open>generate_plan\<close> returns a valid plan. Its execution order lists the identifiers of the tasks in an order \<open>ord\<close> of
  the indices that holds every index once, and every recorded prerequisite \<open>j\<close> of a task
  \<open>i\<close> stands strictly before \<open>i\<close> in it; when the identifiers are pairwise distinct, the
  identifier of \<open>j\<close> stands strictly before the identifier of \<open>i\<close> in \<^verbatim>\<open>execution_order\<close>.
\<close>

theorem generate_plan_respects_prerequisites:
  assumes ok: "set_order_ok self"
    and rel: "fst (analyze_dependencies self ts) = Inr deps"
    and acyc: "acyclic (edges deps)"
  shows "(\<forall>r. well_formed r \<and> acyclic (edges r) \<longrightarrow>
            (\<exists>ord. topological_sort r (length r) = Inr (Some ord) \<and> topological_order r ord))
       \<and> (\<exists>plan ord.
           generate_plan self ts = (Inr plan, ts) \<and> is_valid plan \<and>
           execution_order plan = map (\<lambda>i. task_id (ts ! i)) ord \<and>
           mset ord = mset [0..<length ts] \<and>
           (\<forall>i<length ts. \<forall>j \<in> set (deps ! i).
              position ord j < position ord i \<and>
              (distinct (map task_id ts) \<longrightarrow>
                 position (execution_order plan) (task_id (ts ! j))
                   < position (execution_order plan) (task_id (ts ! i)))))"
proof (rule conjI)
  show "\<forall>r. well_formed r \<and> acyclic (edges r) \<longrightarrow>
          (\<exists>ord. topological_sort r (length r) = Inr (Some ord) \<and> topological_order r ord)"
    using topological_sort_correct by blast
qed (rule plan_of_acyclic_relation [OF ok rel acyc])

theorem generate_plan_respects_prerequisites_witness:
  "set_order_ok (scripted_planner (reply_of [(''1'', [3]), (''2'', []), (''3'', [2])]))
   \<and> fst (analyze_dependencies
            (scripted_planner (reply_of [(''1'', [3]), (''2'', []), (''3'', [2])])) report_tasks)
       = Inr [[2], [], [1]]
   \<and> acyclic (edges [[2], [], [1]])
   \<and> (\<exists>plan ord.
         generate_plan (scripted_planner (reply_of [(''1'', [3]), (''2'', []), (''3'', [2])]))
             report_tasks = (Inr plan, report_tasks)
         \<and> is_valid plan
         \<and> execution_order plan = map (\<lambda>i. task_id (report_tasks ! i)) ord
         \<and> mset ord = mset [0..<length report_tasks]
         \<and> position ord 2 < position ord 0 \<and> position ord 1 < position ord 2)"
proof -
  let ?p = "scripted_planner (reply_of [(''1'', [3]), (''2'', []), (''3'', [2])])"
  have h1: "set_order_ok ?p" by (rule scripted_planner_ok)
  have h3: "acyclic (edges [[2], [], [1]])"
    by (rule edges_ranked_acyclic [where rank = "\<lambda>i. [2, 0, 1] ! i"])
       (simp add: numeral_3_eq_3 less_Suc_eq)
  from generate_plan_respects_prerequisites [OF h1 reversed_reply_relation h3, THEN conjunct2]
  obtain plan ord where
    "generate_plan ?p report_tasks = (Inr plan, report_tasks)" "is_valid plan"
    "execution_order plan = map (\<lambda>i. task_id (report_tasks ! i)) ord"
    "mset ord = mset [0..<length report_tasks]"
    and before: "\<forall>i<length report_tasks. \<forall>j \<in> set ([[2], [], [1]] ! i).
                   position ord j < position ord i"
    by blast
  moreover from before have "position ord 2 < position ord 0" "position ord 1 < position ord 2"
    by (simp_all add: report_tasks_def)
  ultimately show ?thesis using h1 h3 reversed_reply_relation by blast
qed

lemma plan_of_cyclic_relation:
  assumes ok: "set_order_ok self"
    and rel: "fst (analyze_dependencies self ts) = Inr deps"
    and cyc: "\<not> acyclic (edges deps)"
  shows "\<exists>plan. generate_plan self ts = (Inr plan, ts) \<and> \<not> is_valid plan \<and>
           execution_order plan = [] \<and> error_message plan \<noteq> []"
proof (cases "ts = []")
  case True
  with rel have "deps = []" by (simp add: analyze_dependencies_def)
  then have "edges deps = {}" by (simp add: edges_def)
  with cyc show ?thesis by (simp add: acyclic_def)
next
  case False
  from generate_plan_cases [OF ok False] obtain rel' where
    dep: "analyze_dependencies self ts = (Inr rel', ts)"
    and bad: "\<not> acyclic (edges rel') \<longrightarrow>
                generate_plan self ts =
                  (Inr \<lparr>execution_order = [], is_valid = False,
                        error_message = ''Circular dependency detected among tasks'',
                        plan_tasks = Map.empty\<rparr>, ts)"
    by blast
  from dep rel have "rel' = deps" by simp
  with bad cyc show ?thesis by simp
qed

text \<open>
  Claim C2. The sort returns \<^verbatim>\<open>None\<close> for every well-formed relation with a cycle. For
  every task list and every prerequisite relation that contains a cycle (the
  relation that \<^verbatim>\<open>analyze_dependencies\<close> hands to the sort), \<^verbatim>\<open>generate_plan\<close> returns a plan
  with \<^verbatim>\<open>is_valid\<close> false, an empty \<^verbatim>\<open>execution_order\<close> and an \<^verbatim>\<open>error_message\<close> that is not
  empty: never a partial order.
\<close>

theorem generate_plan_rejects_cycles:
  assumes ok: "set_order_ok self"
    and rel: "fst (analyze_dependencies self ts) = Inr deps"
    and cyc: "\<not> acyclic (edges deps)"
  shows "(\<forall>r. well_formed r \<and> \<not> acyclic (edges r) \<longrightarrow>
            topological_sort r (length r) = Inr None)
       \<and> (\<exists>plan. generate_plan self ts = (Inr plan, ts) \<and> \<not> is_valid plan \<and>
             execution_order plan = [] \<and> error_message plan \<noteq> [])"
proof (rule conjI)
  show "\<forall>r. well_formed r \<and> \<not> acyclic (edges r) \<longrightarrow>
          topological_sort r (length r) = Inr None"
    using topological_sort_correct by blast
qed (rule plan_of_cyclic_relation [OF ok rel cyc])

theorem generate_plan_rejects_cycles_witness:
  "set_order_ok (scripted_planner (reply_of [(''1'', [2]), (''2'', [1])]))
   \<and> fst (analyze_dependencies
            (scripted_planner (reply_of [(''1'', [2]), (''2'', [1])])) report_tasks)
       = Inr [[1], [0], []]
   \<and> \<not> acyclic (edges [[1], [0], []])
   \<and> (\<exists>plan. generate_plan (scripted_planner (reply_of [(''1'', [2]), (''2'', [1])]))
                 report_tasks = (Inr plan, report_tasks)
         \<and> \<not> is_valid plan \<and> execution_order plan = [] \<and> error_message plan \<noteq> [])"
  by (intro conjI scripted_planner_ok cyclic_reply_relation two_cycle
        generate_plan_rejects_cycles
          [OF scripted_planner_ok cyclic_reply_relation two_cycle, THEN conjunct2])

text \<open>
  Claim C3. For every task list with pairwise distinct identifiers, \<^verbatim>\<open>generate_plan\<close>
  returns a plan, and of that plan: if \<^verbatim>\<open>is_valid\<close> is true, \<^verbatim>\<open>execution_order\<close> is a permutation
  of the identifiers of the input tasks (the same multiset, no duplicate, as long as the
  input); if \<^verbatim>\<open>is_valid\<close> is false, \<^verbatim>\<open>execution_order\<close> is empty and \<^verbatim>\<open>error_message\<close> is not.
\<close>

theorem generate_plan_order_invariant:
  assumes ok: "set_order_ok self" and ids: "distinct (map task_id ts)"
  shows "\<exists>plan. generate_plan self ts = (Inr plan, ts) \<and>
           (is_valid plan \<longrightarrow>
              mset (execution_order plan) = mset (map task_id ts) \<and>
              distinct (execution_order plan) \<and>
              length (execution_order plan) = length ts) \<and>
           (\<not> is_valid plan \<longrightarrow> execution_order plan = [] \<and> error_message plan \<noteq> [])"
proof (cases "ts = []")
  case True
  then show ?thesis by (simp add: generate_plan_def)
next
  case False
  from generate_plan_cases [OF ok False] obtain rel where
    good: "acyclic (edges rel) \<longrightarrow>
                (\<exists>ord. topological_order rel ord \<and>
                   generate_plan self ts =
                     (Inr \<lparr>execution_order = map (\<lambda>i. task_id (ts ! i)) ord, is_valid = True,
                           error_message = [],
                           plan_tasks = map_of (rev (map (\<lambda>i. (task_id (ts ! i), ts ! i)) ord))\<rparr>,
                      ts))"
    and bad: "\<not> acyclic (edges rel) \<longrightarrow>
                generate_plan self ts =
                  (Inr \<lparr>execution_order = [], is_valid = False,
                        error_message = ''Circular dependency detected among tasks'',
                        plan_tasks = Map.empty\<rparr>, ts)"
    and len: "length rel = length ts"
    by blast
  show ?thesis
  proof (cases "acyclic (edges rel)")
    case True
    with good obtain ord where ord: "topological_order rel ord"
      and plan: "generate_plan self ts =
                     (Inr \<lparr>execution_order = map (\<lambda>i. task_id (ts ! i)) ord, is_valid = True,
                           error_message = [],
                           plan_tasks = map_of (rev (map (\<lambda>i. (task_id (ts ! i), ts ! i)) ord))\<rparr>,
                      ts)"
      by blast
    from ord len have perm: "mset ord = mset [0..<length ts]"
      by (simp add: topological_order_def)
    have "mset (map (\<lambda>i. task_id (ts ! i)) ord) = image_mset (\<lambda>i. task_id (ts ! i)) (mset ord)"
      by simp
    also have "\<dots> = mset (map (\<lambda>i. task_id (ts ! i)) [0..<length ts])"
      unfolding perm by simp
    also have "map (\<lambda>i. task_id (ts ! i)) [0..<length ts] = map task_id ts"
      by (rule nth_equalityI) simp_all
    finally have m: "mset (map (\<lambda>i. task_id (ts ! i)) ord) = mset (map task_id ts)" .
    from m ids have d: "distinct (map (\<lambda>i. task_id (ts ! i)) ord)"
      by (metis mset_eq_imp_distinct_iff)
    from mset_eq_length [OF m] have l: "length (map (\<lambda>i. task_id (ts ! i)) ord) = length ts"
      by simp
    from plan m d l show ?thesis by simp
  next
    case False
    with bad show ?thesis by simp
  qed
qed

theorem generate_plan_order_invariant_witness:
  "set_order_ok keyword_planner \<and> distinct (map task_id report_tasks)
   \<and> (\<exists>plan. generate_plan keyword_planner report_tasks = (Inr plan, report_tasks)
         \<and> is_valid plan
         \<and> mset (execution_order plan) = mset (map task_id report_tasks)
         \<and> distinct (execution_order plan)
         \<and> length (execution_order plan) = length report_tasks)
   \<and> set_order_ok (scripted_planner (reply_of [(''1'', [2]), (''2'', [1])]))
   \<and> (\<exists>plan. generate_plan (scripted_planner (reply_of [(''1'', [2]), (''2'', [1])]))
                 report_tasks = (Inr plan, report_tasks)
         \<and> \<not> is_valid plan \<and> execution_order plan = [] \<and> error_message plan \<noteq> [])"
proof -
  let ?p = "scripted_planner (reply_of [(''1'', [2]), (''2'', [1])])"
  have ids: "distinct (map task_id report_tasks)"
    by (simp add: report_tasks_def new_task_def)
  from generate_plan_order_invariant [OF keyword_planner_ok ids] obtain plan where
    p: "generate_plan keyword_planner report_tasks = (Inr plan, report_tasks)"
    and v: "is_valid plan \<longrightarrow>
              mset (execution_order plan) = mset (map task_id report_tasks) \<and>
              distinct (execution_order plan) \<and>
              length (execution_order plan) = length report_tasks"
    by blast
  from p report_plan [OF keyword_planner_ok keyword_planner_fallback] have "is_valid plan"
    by auto
  with p v have first: "\<exists>plan. generate_plan keyword_planner report_tasks = (Inr plan, report_tasks)
         \<and> is_valid plan
         \<and> mset (execution_order plan) = mset (map task_id report_tasks)
         \<and> distinct (execution_order plan)
         \<and> length (execution_order plan) = length report_tasks"
    by blast
  from generate_plan_order_invariant [OF scripted_planner_ok ids] obtain plan' where
    p': "generate_plan ?p report_tasks = (Inr plan', report_tasks)"
    and i: "\<not> is_valid plan' \<longrightarrow> execution_order plan' = [] \<and> error_message plan' \<noteq> []"
    by blast
  from p' cyclic_plan have "\<not> is_valid plan'" by auto
  with p' i have second: "\<exists>plan. generate_plan ?p report_tasks = (Inr plan, report_tasks)
         \<and> \<not> is_valid plan \<and> execution_order plan = [] \<and> error_message plan \<noteq> []"
    by blast
  from keyword_planner_ok ids first scripted_planner_ok second show ?thesis
    by (intro conjI)
qed

text \<open>
  Claim C4 takes the phase of a task from the lowercase concatenation of its name and
  description. The code scans the lowercase of the name, one space and the description,
  and the space decides: the task named re with description search has phase 5, not the 2
  of the keyword research, and the task named turn with description in homework has
  phase 7, from the keyword turn in, not 5.
\<close>

theorem keyword_phase_counterexample:
  "phase_by_plain_concatenation split_keyword_task = 2
   \<and> task_phase split_keyword_task = 5
   \<and> task_phase split_keyword_task \<noteq> phase_by_plain_concatenation split_keyword_task
   \<and> phase_by_plain_concatenation turn_in_task = 5
   \<and> task_phase turn_in_task = 7
   \<and> task_phase turn_in_task \<noteq> phase_by_plain_concatenation turn_in_task"
proof -
  have a: "phase_by_plain_concatenation split_keyword_task = 2"
    unfolding phase_by_plain_concatenation_def Let_def least_matched_phase
    by (simp add: split_keyword_task_def new_task_def lower_def lower_char_def
          action_phases_def sublist_Cons_right)
  have b: "task_phase split_keyword_task = 5"
    by (simp add: split_keyword_task_def new_task_def task_phase_def task_text_of_def lower_def
          lower_char_def action_phases_def sublist_Cons_right)
  have c: "phase_by_plain_concatenation turn_in_task = 5"
    unfolding phase_by_plain_concatenation_def Let_def least_matched_phase
    by (simp add: turn_in_task_def new_task_def lower_def lower_char_def
          action_phases_def sublist_Cons_right)
  have d: "task_phase turn_in_task = 7"
    by (simp add: turn_in_task_def new_task_def task_phase_def task_text_of_def lower_def
          lower_char_def action_phases_def sublist_Cons_right)
  from a b have e: "task_phase split_keyword_task \<noteq> phase_by_plain_concatenation split_keyword_task"
    by simp
  from c d have f: "task_phase turn_in_task \<noteq> phase_by_plain_concatenation turn_in_task"
    by simp
  from a b e c d f show ?thesis by (intro conjI)
qed

text \<open>
  Claim C4, amended. The keyword fallback gives every task the least phase of the keywords
  that occur in its text, which is the lowercase of the name, one space and the
  description, and phase 5 when no keyword occurs. Its relation has the edge "\<open>i\<close> depends
  on \<open>j\<close>" exactly when \<open>i \<noteq> j\<close> and the phase of \<open>j\<close> is below the phase of \<open>i\<close>, so two tasks
  of equal phase do not depend on each other. For the tasks named Research topic, Write
  report and Submit report (no descriptions) the phases are 2, 4, 7, the relation is
  \<open>{0:{}, 1:{0}, 2:{0,1}}\<close>, and the plan built from it lists them in that order.
\<close>

theorem keyword_fallback_phases_and_edges:
  assumes ok: "set_order_ok self"
  shows "(\<forall>t. matching_phases t =
               {phase. \<exists>action. (action, phase) \<in> set action_phases \<and>
                         sublist action (lower (name t @ '' '' @ description t))})
       \<and> (\<forall>t. task_phase t = (if matching_phases t = {} then 5 else Min (matching_phases t)))
       \<and> length (fst (analyze_with_keywords self ts)) = length ts
       \<and> (\<forall>i<length ts. \<forall>j.
             j \<in> set (fst (analyze_with_keywords self ts) ! i)
               \<longleftrightarrow> j < length ts \<and> i \<noteq> j \<and> task_phase (ts ! j) < task_phase (ts ! i))
       \<and> (\<forall>i<length ts. \<forall>j<length ts.
             task_phase (ts ! i) = task_phase (ts ! j) \<longrightarrow>
               j \<notin> set (fst (analyze_with_keywords self ts) ! i) \<and>
               i \<notin> set (fst (analyze_with_keywords self ts) ! j))
       \<and> map task_phase report_tasks = [2, 4, 7]
       \<and> map set (fst (analyze_with_keywords self report_tasks)) = [{}, {0}, {0, 1}]
       \<and> (fst (analyze_dependencies self report_tasks)
              = Inr (fst (analyze_with_keywords self report_tasks)) \<longrightarrow>
            (\<exists>plan. generate_plan self report_tasks = (Inr plan, report_tasks) \<and>
               is_valid plan \<and>
               execution_order plan = [''task_0'', ''task_1'', ''task_2''] \<and>
               map (\<lambda>k. map_option name (plan_tasks plan k)) (execution_order plan)
                 = [Some ''Research topic'', Some ''Write report'', Some ''Submit report'']))"
proof -
  let ?rel = "fst (analyze_with_keywords self ts)"
  have member: "\<forall>i<length ts. \<forall>j.
             j \<in> set (?rel ! i)
               \<longleftrightarrow> j < length ts \<and> i \<noteq> j \<and> task_phase (ts ! j) < task_phase (ts ! i)"
    using keywords_member [OF ok] by blast
  have ties: "\<forall>i<length ts. \<forall>j<length ts.
             task_phase (ts ! i) = task_phase (ts ! j) \<longrightarrow>
               j \<notin> set (?rel ! i) \<and> i \<notin> set (?rel ! j)"
    using keywords_member [OF ok] by simp
  have sets: "map set (fst (analyze_with_keywords self report_tasks)) = [{}, {0}, {0, 1}]"
    using report_relation [OF ok] by auto
  have plan: "fst (analyze_dependencies self report_tasks)
                = Inr (fst (analyze_with_keywords self report_tasks)) \<longrightarrow>
            (\<exists>plan. generate_plan self report_tasks = (Inr plan, report_tasks) \<and>
               is_valid plan \<and>
               execution_order plan = [''task_0'', ''task_1'', ''task_2''] \<and>
               map (\<lambda>k. map_option name (plan_tasks plan k)) (execution_order plan)
                 = [Some ''Research topic'', Some ''Write report'', Some ''Submit report''])"
  proof
    assume "fst (analyze_dependencies self report_tasks)
              = Inr (fst (analyze_with_keywords self report_tasks))"
    from report_plan [OF ok this]
    show "\<exists>plan. generate_plan self report_tasks = (Inr plan, report_tasks) \<and>
               is_valid plan \<and>
               execution_order plan = [''task_0'', ''task_1'', ''task_2''] \<and>
               map (\<lambda>k. map_option name (plan_tasks plan k)) (execution_order plan)
                 = [Some ''Research topic'', Some ''Write report'', Some ''Submit report'']"
      by (simp add: report_tasks_def new_task_def)
  qed
  have phases: "\<forall>t. task_phase t
                  = (if matching_phases t = {} then 5 else Min (matching_phases t))"
    by (rule allI) (rule task_phase_min)
  have texts: "\<forall>t. matching_phases t =
               {phase. \<exists>action. (action, phase) \<in> set action_phases \<and>
                         sublist action (lower (name t @ '' '' @ description t))}"
    by (simp add: matching_phases_def matched_def task_text_of_def)
  from texts phases keywords_length member ties report_phases sets plan
  show ?thesis by (intro conjI)
qed

theorem keyword_fallback_phases_and_edges_witness:
  "set_order_ok keyword_planner
   \<and> fst (analyze_dependencies keyword_planner report_tasks)
       = Inr (fst (analyze_with_keywords keyword_planner report_tasks))
   \<and> (\<exists>plan. generate_plan keyword_planner report_tasks = (Inr plan, report_tasks) \<and>
         is_valid plan \<and> execution_order plan = [''task_0'', ''task_1'', ''task_2''])
   \<and> 0 \<in> set (fst (analyze_with_keywords keyword_planner report_tasks) ! 2)
   \<and> 1 \<in> set (fst (analyze_with_keywords keyword_planner report_tasks) ! 2)
   \<and> 2 \<notin> set (fst (analyze_with_keywords keyword_planner report_tasks) ! 1)
   \<and> task_phase (errand_tasks ! 0) = task_phase (errand_tasks ! 1)
   \<and> 1 \<notin> set (fst (analyze_with_keywords keyword_planner errand_tasks) ! 0)
   \<and> 0 \<notin> set (fst (analyze_with_keywords keyword_planner errand_tasks) ! 1)"
proof -
  let ?rel = "fst (analyze_with_keywords keyword_planner report_tasks)"
  have len: "length report_tasks = 3" by (simp add: report_tasks_def)
  have ph: "task_phase (report_tasks ! 0) = 2" "task_phase (report_tasks ! 1) = 4"
    "task_phase (report_tasks ! 2) = 7"
    using report_phases by (simp_all add: report_tasks_def)
  note c4 = keyword_fallback_phases_and_edges [OF keyword_planner_ok]
  from c4 [of report_tasks]
  have "fst (analyze_dependencies keyword_planner report_tasks)
              = Inr (fst (analyze_with_keywords keyword_planner report_tasks)) \<longrightarrow>
            (\<exists>plan. generate_plan keyword_planner report_tasks = (Inr plan, report_tasks) \<and>
               is_valid plan \<and>
               execution_order plan = [''task_0'', ''task_1'', ''task_2''] \<and>
               map (\<lambda>k. map_option name (plan_tasks plan k)) (execution_order plan)
                 = [Some ''Research topic'', Some ''Write report'', Some ''Submit report''])"
    by (elim conjE)
  with keyword_planner_fallback obtain plan where
    "generate_plan keyword_planner report_tasks = (Inr plan, report_tasks)"
    "is_valid plan" "execution_order plan = [''task_0'', ''task_1'', ''task_2'']"
    by (elim impE exE conjE)
  then have plan: "\<exists>plan. generate_plan keyword_planner report_tasks = (Inr plan, report_tasks) \<and>
         is_valid plan \<and> execution_order plan = [''task_0'', ''task_1'', ''task_2'']"
    by (intro exI conjI)
  from c4 [of report_tasks]
  have member: "\<forall>i<length report_tasks. \<forall>j. j \<in> set (?rel ! i)
      \<longleftrightarrow> j < length report_tasks \<and> i \<noteq> j \<and> task_phase (report_tasks ! j) < task_phase (report_tasks ! i)"
    by (elim conjE)
  from member len ph have edges: "0 \<in> set (?rel ! 2)" "1 \<in> set (?rel ! 2)" "2 \<notin> set (?rel ! 1)"
    by simp_all
  have elen: "length errand_tasks = 2" by (simp add: errand_tasks_def)
  have tie: "task_phase (errand_tasks ! 0) = task_phase (errand_tasks ! 1)"
    using errand_phases by (simp add: errand_tasks_def)
  from c4 [of errand_tasks]
  have "\<forall>i<length errand_tasks. \<forall>j<length errand_tasks.
             task_phase (errand_tasks ! i) = task_phase (errand_tasks ! j) \<longrightarrow>
               j \<notin> set (fst (analyze_with_keywords keyword_planner errand_tasks) ! i) \<and>
               i \<notin> set (fst (analyze_with_keywords keyword_planner errand_tasks) ! j)"
    by (elim conjE)
  with elen tie have none: "1 \<notin> set (fst (analyze_with_keywords keyword_planner errand_tasks) ! 0)"
    "0 \<notin> set (fst (analyze_with_keywords keyword_planner errand_tasks) ! 1)"
    by simp_all
  from keyword_planner_ok keyword_planner_fallback plan edges tie none show ?thesis
    by (intro conjI)
qed

text \<open>
  Claim C5. For every task list of at least two tasks, if the classifier path raises an
  exception (the call fails, the reply is not the expected object, an entry of the payload
  is not a number) or the reply cannot be decoded as JSON, \<^verbatim>\<open>analyze_dependencies\<close> returns
  normally, with exactly the relation of the keyword fallback for that task list.
\<close>

theorem classifier_failure_falls_back:
  assumes two: "2 \<le> length ts"
    and fails: "(\<exists>e. fst (analyze_with_ai self ts) = Inl e) \<or> client self ts = Undecodable"
  shows "analyze_dependencies self ts = (Inr (fst (analyze_with_keywords self ts)), ts)"
proof -
  have kw: "analyze_with_keywords self ts = (fst (analyze_with_keywords self ts), ts)"
    using analyze_with_keywords_frame [of self ts] by (cases "analyze_with_keywords self ts") simp
  from fails have "fst (analyze_dependencies self ts) = Inr (fst (analyze_with_keywords self ts))"
  proof
    assume "\<exists>e. fst (analyze_with_ai self ts) = Inl e"
    then obtain e where "fst (analyze_with_ai self ts) = Inl e" ..
    with two show ?thesis
      unfolding analyze_dependencies_cases
      by (auto simp: analyze_with_ai_def split: reply.splits sum.splits prod.splits)
  next
    assume "client self ts = Undecodable"
    with two show ?thesis by (simp add: analyze_dependencies_cases)
  qed
  with analyze_dependencies_frame [of self ts] show ?thesis
    by (cases "analyze_dependencies self ts") simp
qed

theorem classifier_failure_falls_back_witness:
  "2 \<le> length report_tasks
   \<and> fst (analyze_with_ai (scripted_planner (Raised ClientError)) report_tasks) = Inl ClientError
   \<and> analyze_dependencies (scripted_planner (Raised ClientError)) report_tasks
       = (Inr (fst (analyze_with_keywords (scripted_planner (Raised ClientError)) report_tasks)),
          report_tasks)
   \<and> fst (analyze_with_ai
            (scripted_planner (Decoded (JDict [(''dependencies'', JDict [(''1'', JList [JStr ''two''])])])))
            report_tasks) = Inl TypeError
   \<and> analyze_dependencies
        (scripted_planner (Decoded (JDict [(''dependencies'', JDict [(''1'', JList [JStr ''two''])])])))
        report_tasks
       = (Inr (fst (analyze_with_keywords
            (scripted_planner (Decoded (JDict [(''dependencies'', JDict [(''1'', JList [JStr ''two''])])])))
            report_tasks)), report_tasks)
   \<and> client (scripted_planner Undecodable) report_tasks = Undecodable
   \<and> analyze_dependencies (scripted_planner Undecodable) report_tasks
       = (Inr (fst (analyze_with_keywords (scripted_planner Undecodable) report_tasks)),
          report_tasks)"
proof -
  have two: "2 \<le> length report_tasks" by (simp add: report_tasks_def)
  have und: "client (scripted_planner Undecodable) report_tasks = Undecodable"
    by (simp add: scripted_planner_def)
  have a: "(\<exists>e. fst (analyze_with_ai (scripted_planner (Raised ClientError)) report_tasks) = Inl e)
             \<or> client (scripted_planner (Raised ClientError)) report_tasks = Undecodable"
    using transport_error_raises by blast
  have b: "(\<exists>e. fst (analyze_with_ai
            (scripted_planner (Decoded (JDict [(''dependencies'', JDict [(''1'', JList [JStr ''two''])])])))
            report_tasks) = Inl e)
         \<or> client (scripted_planner (Decoded (JDict [(''dependencies'', JDict [(''1'', JList [JStr ''two''])])])))
              report_tasks = Undecodable"
    using bad_entry_raises by (intro disjI1 exI)
  have c: "(\<exists>e. fst (analyze_with_ai (scripted_planner Undecodable) report_tasks) = Inl e)
             \<or> client (scripted_planner Undecodable) report_tasks = Undecodable"
    using und by (intro disjI2)
  show ?thesis
    by (intro conjI two und transport_error_raises bad_entry_raises
          classifier_failure_falls_back [OF two a]
          classifier_failure_falls_back [OF two b]
          classifier_failure_falls_back [OF two c])
qed

text \<open>
  Claim C6 says that after \<^verbatim>\<open>stop_execution()\<close>, once the call in flight has seen the flag,
  no task is Running, a task found Running is Pending and never Completed, and a run over
  three tasks stopped while the second is Running ends Completed, Pending, Pending. That
  is what happens when the stop comes during the sleep. The code takes no lock, and two
  other schedules break the claim: a stop between the test of line 37 and the assignment
  of line 41 leaves the second task Running for good, with the flag set and both methods
  returned; a stop between the test of line 46 and the assignment of line 48, the second
  task Running, resets it to Pending and the worker then sets it Completed.
\<close>

theorem stop_races_with_execute_task:
  "statuses three_pending = [PENDING, PENDING, PENDING]
   \<and> statuses (run three_pending stop_during_sleep) = [COMPLETED, PENDING, PENDING]
   \<and> statuses (run three_pending stop_before_running) = [COMPLETED, RUNNING, PENDING]
   \<and> stop_flag (executor (run three_pending stop_before_running))
   \<and> worker_at (run three_pending stop_before_running) = Idle
   \<and> controller_at (run three_pending stop_before_running) = Away
   \<and> statuses (run three_pending (call_to_end 0 @ [Call 1, Work, Work, Work, Work]))
       = [COMPLETED, RUNNING, PENDING]
   \<and> statuses (run three_pending stop_before_completed) = [COMPLETED, COMPLETED, PENDING]
   \<and> worker_at (run three_pending stop_before_completed) = Idle
   \<and> controller_at (run three_pending stop_before_completed) = Away"
  by (simp add: statuses_def run_def three_pending_def call_to_end_def stop_during_sleep_def
        stop_before_running_def stop_before_completed_def set_status_def new_task_def)

text \<open>
  Claim C7 says that after \<^verbatim>\<open>pause_execution()\<close> and before \<^verbatim>\<open>resume_execution()\<close> no task
  goes from Pending to Running, and that pausing changes no status. The second part holds.
  The first does not: \<^verbatim>\<open>execute_task\<close> never reads \<^verbatim>\<open>pause_flag\<close>, so a call made while the
  executor is paused sets its task Running, and Completed after the sleep.
\<close>

theorem pause_does_not_hold_execution:
  "status (objects three_pending 0) = PENDING
   \<and> objects (step three_pending Pause) = objects three_pending
   \<and> pause_flag (executor (run three_pending [Pause, Call 0, Work, Work]))
   \<and> status (objects (run three_pending [Pause, Call 0, Work, Work]) 0) = RUNNING
   \<and> status (objects (run three_pending [Pause, Call 0, Work, Work, Work, Work, Work]) 0)
       = COMPLETED"
  by (simp add: run_def three_pending_def pause_execution_def set_status_def new_task_def)

text \<open>
  Claim C8. For every reply that decodes to a dictionary whose \<^verbatim>\<open>dependencies\<close> entry maps
  keys to lists of integers, over \<open>N\<close> tasks: the resolver returns a relation of \<open>N\<close> sets;
  the set of task \<open>i\<close> is empty when the key \<^verbatim>\<open>str(i + 1)\<close> is absent, and otherwise holds
  exactly the \<open>k - 1\<close> for the listed \<open>k\<close> with \<open>1 \<le> k \<le> N\<close>, every other listed index being
  dropped. With \<^verbatim>\<open>use_ai\<close> and two tasks or more this is the relation that
  \<^verbatim>\<open>analyze_dependencies\<close> returns.
\<close>

theorem classifier_indices_converted:
  assumes ok: "set_order_ok self"
    and reply: "client self ts = Decoded (JDict items)"
    and deps: "map_of items ''dependencies'' = Some (JDict listed)"
    and ints: "\<forall>i<length ts. \<forall>v. map_of listed (str_nat (i + 1)) = Some v
                 \<longrightarrow> (\<exists>ks. v = JList (map JInt ks))"
  shows "\<exists>rel. analyze_with_ai self ts = (Inr rel, ts) \<and> length rel = length ts \<and>
           (\<forall>i<length ts. map_of listed (str_nat (i + 1)) = None \<longrightarrow> rel ! i = []) \<and>
           (\<forall>i<length ts. \<forall>ks. map_of listed (str_nat (i + 1)) = Some (JList (map JInt ks)) \<longrightarrow>
              distinct (rel ! i) \<and>
              set (rel ! i) = {nat (k - 1) | k. k \<in> set ks \<and> 1 \<le> k \<and> k \<le> int (length ts)}) \<and>
           (use_ai self \<and> 2 \<le> length ts \<longrightarrow> analyze_dependencies self ts = (Inr rel, ts))"
proof -
  let ?n = "length ts"
  let ?f = "prereqs_of_key self (JDict listed) ?n"
  let ?conv = "\<lambda>i. case map_of listed (str_nat (i + 1)) of
                      None \<Rightarrow> []
                    | Some v \<Rightarrow> (case v of
                        JList xs \<Rightarrow> set_order self
                          (map (\<lambda>k. nat (k - 1))
                             (filter (\<lambda>k. 1 \<le> k \<and> k \<le> int ?n) (map (\<lambda>x. case x of JInt k \<Rightarrow> k | _ \<Rightarrow> 0) xs)))
                      | _ \<Rightarrow> [])"
  have each: "?f i = Inr (?conv i)" if "i < ?n" for i
  proof (cases "map_of listed (str_nat (i + 1))")
    case None
    then show ?thesis
      by (simp add: prereqs_of_key_def Let_def contains_key_dict del: contains_key.simps)
  next
    case (Some v)
    with ints that obtain ks where v: "v = JList (map JInt ks)" by blast
    have "map (\<lambda>x. case x of JInt k \<Rightarrow> k | _ \<Rightarrow> 0) (map JInt ks) = ks"
      by (induction ks) auto
    with Some v show ?thesis
      by (simp add: prereqs_of_key_def Let_def contains_key_dict collect_prereqs_ints
            del: contains_key.simps)
  qed
  have conv: "convert_keys ?f ks = Inr (map ?conv ks)" if "\<forall>i \<in> set ks. i < ?n" for ks
    using that by (induction ks) (simp_all add: each)
  let ?rel = "map ?conv [0..<?n]"
  from conv [of "[0..<?n]"] have "convert_keys ?f [0..<?n] = Inr ?rel" by simp
  with reply deps have ai: "analyze_with_ai self ts = (Inr ?rel, ts)"
    by (simp add: analyze_with_ai_def convert_reply_def)
  have absent: "\<forall>i<?n. map_of listed (str_nat (i + 1)) = None \<longrightarrow> ?rel ! i = []"
    by simp
  have present: "\<forall>i<?n. \<forall>ks. map_of listed (str_nat (i + 1)) = Some (JList (map JInt ks)) \<longrightarrow>
              distinct (?rel ! i) \<and>
              set (?rel ! i) = {nat (k - 1) | k. k \<in> set ks \<and> 1 \<le> k \<and> k \<le> int ?n}"
  proof (intro allI impI)
    fix i ks assume i: "i < ?n"
      and some: "map_of listed (str_nat (i + 1)) = Some (JList (map JInt ks))"
    have unmap: "map (\<lambda>x. case x of JInt k \<Rightarrow> k | _ \<Rightarrow> 0) (map JInt ks) = ks"
      by (induction ks) auto
    from i some unmap have entry: "?rel ! i = set_order self
             (map (\<lambda>k. nat (k - 1)) (filter (\<lambda>k. 1 \<le> k \<and> k \<le> int ?n) ks))"
      by simp
    from ok have "distinct (set_order self (map (\<lambda>k. nat (k - 1)) (filter (\<lambda>k. 1 \<le> k \<and> k \<le> int ?n) ks)))
        \<and> set (set_order self (map (\<lambda>k. nat (k - 1)) (filter (\<lambda>k. 1 \<le> k \<and> k \<le> int ?n) ks)))
            = set (map (\<lambda>k. nat (k - 1)) (filter (\<lambda>k. 1 \<le> k \<and> k \<le> int ?n) ks))"
      unfolding set_order_ok_def by blast
    with entry show "distinct (?rel ! i) \<and>
              set (?rel ! i) = {nat (k - 1) | k. k \<in> set ks \<and> 1 \<le> k \<and> k \<le> int ?n}"
      by auto
  qed
  have through: "use_ai self \<and> 2 \<le> ?n \<longrightarrow> analyze_dependencies self ts = (Inr ?rel, ts)"
    using ai by (simp add: analyze_dependencies_def)
  have "length ?rel = ?n" by simp
  with ai absent present through show ?thesis by blast
qed

theorem classifier_indices_converted_witness:
  "set_order_ok index_planner
   \<and> client index_planner report_tasks
       = Decoded (JDict [(''dependencies'', JDict listed_example)])
   \<and> map_of [(''dependencies'', JDict listed_example)] ''dependencies''
       = Some (JDict listed_example)
   \<and> (\<exists>rel. analyze_with_ai index_planner report_tasks = (Inr rel, report_tasks)
         \<and> length rel = 3 \<and> set (rel ! 0) = {1} \<and> rel ! 1 = [] \<and> set (rel ! 2) = {0, 2}
         \<and> analyze_dependencies index_planner report_tasks = (Inr rel, report_tasks))"
proof -
  have len: "length report_tasks = 3" by (simp add: report_tasks_def)
  have ok: "set_order_ok index_planner"
    unfolding index_planner_def by (rule scripted_planner_ok)
  have reply: "client index_planner report_tasks
                 = Decoded (JDict [(''dependencies'', JDict listed_example)])"
    by (simp add: index_planner_def scripted_planner_def)
  have deps: "map_of [(''dependencies'', JDict listed_example)] ''dependencies''
                = Some (JDict listed_example)"
    by simp
  have use: "use_ai index_planner \<and> 2 \<le> length report_tasks"
    by (simp add: index_planner_def scripted_planner_def len)
  from classifier_indices_converted [OF ok reply deps listed_example_ints] obtain rel where
    ai: "analyze_with_ai index_planner report_tasks = (Inr rel, report_tasks)"
    and l: "length rel = length report_tasks"
    and absent: "\<forall>i<length report_tasks.
                   map_of listed_example (str_nat (i + 1)) = None \<longrightarrow> rel ! i = []"
    and present: "\<forall>i<length report_tasks. \<forall>ks.
        map_of listed_example (str_nat (i + 1)) = Some (JList (map JInt ks)) \<longrightarrow>
          distinct (rel ! i) \<and>
          set (rel ! i)
            = {nat (k - 1) | k. k \<in> set ks \<and> 1 \<le> k \<and> k \<le> int (length report_tasks)}"
    and through: "use_ai index_planner \<and> 2 \<le> length report_tasks
                    \<longrightarrow> analyze_dependencies index_planner report_tasks = (Inr rel, report_tasks)"
    by (elim exE conjE)
  have i0: "0 < length report_tasks" and i1: "1 < length report_tasks"
    and i2: "2 < length report_tasks"
    by (simp_all add: len)
  from absent [rule_format, OF i1 listed_example_keys(2)] have r1: "rel ! 1 = []" .
  from present [rule_format, OF i0 listed_example_keys(1)]
  have "set (rel ! 0)
          = {nat (k - 1) | k. k \<in> set [2, 5, 0] \<and> 1 \<le> k \<and> k \<le> int (length report_tasks)}"
    by (rule conjunct2)
  also have "\<dots> = {1}"
  proof -
    have "nat (2 - 1) = (1::nat)" by simp
    then show ?thesis unfolding len by force
  qed
  finally have r0: "set (rel ! 0) = {1}" .
  from present [rule_format, OF i2 listed_example_keys(3)]
  have "set (rel ! 2)
          = {nat (k - 1) | k. k \<in> set [1, 1, - 4, 3] \<and> 1 \<le> k \<and> k \<le> int (length report_tasks)}"
    by (rule conjunct2)
  also have "\<dots> = {0, 2}"
  proof -
    have "nat (1 - 1) = (0::nat)" "nat (3 - 1) = (2::nat)" by simp_all
    then show ?thesis unfolding len by force
  qed
  finally have r2: "set (rel ! 2) = {0, 2}" .
  from through use have dep: "analyze_dependencies index_planner report_tasks = (Inr rel, report_tasks)"
    by (rule mp)
  from l len have l3: "length rel = 3" by simp
  from ai l3 r0 r1 r2 dep
  have "\<exists>rel. analyze_with_ai index_planner report_tasks = (Inr rel, report_tasks)
         \<and> length rel = 3 \<and> set (rel ! 0) = {1} \<and> rel ! 1 = [] \<and> set (rel ! 2) = {0, 2}
         \<and> analyze_dependencies index_planner report_tasks = (Inr rel, report_tasks)"
    by (intro exI conjI)
  with ok reply deps show ?thesis by (intro conjI)
qed

text \<open>
  Claim C9. The relation of the keyword fallback is acyclic for every task list: each
  edge goes from a strictly lower phase to a strictly higher one. So whenever
  \<^verbatim>\<open>generate_plan\<close> plans from the fallback relation the plan is valid, and a plan that is
  not valid comes from a relation that the classifier supplied: the planner uses the
  classifier, the reply was decoded and converted, and the converted relation has a cycle.
\<close>

theorem keyword_fallback_always_valid:
  assumes ok: "set_order_ok self"
  shows "acyclic (edges (fst (analyze_with_keywords self ts)))
       \<and> (\<forall>i j. (j, i) \<in> edges (fst (analyze_with_keywords self ts))
             \<longrightarrow> task_phase (ts ! j) < task_phase (ts ! i))
       \<and> (fst (analyze_dependencies self ts) = Inr (fst (analyze_with_keywords self ts)) \<longrightarrow>
            (\<exists>plan. generate_plan self ts = (Inr plan, ts) \<and> is_valid plan))
       \<and> (\<forall>plan. generate_plan self ts = (Inr plan, ts) \<and> \<not> is_valid plan \<longrightarrow>
            use_ai self \<and>
            (\<exists>data rel. client self ts = Decoded data \<and>
               convert_reply self data (length ts) = Inr rel \<and>
               fst (analyze_dependencies self ts) = Inr rel \<and> \<not> acyclic (edges rel)))"
proof -
  let ?kw = "fst (analyze_with_keywords self ts)"
  have acyc: "acyclic (edges ?kw)" by (rule keywords_acyclic [OF ok])
  have rising: "\<forall>i j. (j, i) \<in> edges ?kw \<longrightarrow> task_phase (ts ! j) < task_phase (ts ! i)"
    using keywords_member [OF ok] by (auto simp: edges_def keywords_length)
  have valid: "\<exists>plan. generate_plan self ts = (Inr plan, ts) \<and> is_valid plan"
    if fb: "fst (analyze_dependencies self ts) = Inr ?kw"
  proof (cases "ts = []")
    case True
    then show ?thesis by (simp add: generate_plan_def)
  next
    case False
    from generate_plan_cases [OF ok False] fb acyc show ?thesis by fastforce
  qed
  have invalid: "use_ai self \<and>
            (\<exists>data rel. client self ts = Decoded data \<and>
               convert_reply self data (length ts) = Inr rel \<and>
               fst (analyze_dependencies self ts) = Inr rel \<and> \<not> acyclic (edges rel))"
    if run: "generate_plan self ts = (Inr plan, ts)" and bad: "\<not> is_valid plan" for plan
  proof -
    from run bad have ne: "ts \<noteq> []" by (auto simp: generate_plan_def)
    from generate_plan_cases [OF ok ne] run bad obtain rel where
      dep: "fst (analyze_dependencies self ts) = Inr rel" and cyc: "\<not> acyclic (edges rel)"
      by fastforce
    have "edges (map (\<lambda>i. []) [0..<length ts]) = {}"
      by (auto simp: edges_def)
    then have empty: "acyclic (edges (map (\<lambda>i. []) [0..<length ts]))"
      by (simp add: acyclic_def)
    from dep cyc acyc empty show ?thesis
      unfolding analyze_dependencies_cases
      by (auto split: if_splits reply.splits sum.splits)
  qed
  from acyc rising valid invalid show ?thesis by blast
qed

theorem keyword_fallback_always_valid_witness:
  "set_order_ok keyword_planner
   \<and> fst (analyze_dependencies keyword_planner report_tasks)
       = Inr (fst (analyze_with_keywords keyword_planner report_tasks))
   \<and> acyclic (edges (fst (analyze_with_keywords keyword_planner report_tasks)))
   \<and> (\<exists>plan. generate_plan keyword_planner report_tasks = (Inr plan, report_tasks)
         \<and> is_valid plan)
   \<and> set_order_ok (scripted_planner (reply_of [(''1'', [2]), (''2'', [1])]))
   \<and> (\<exists>plan. generate_plan (scripted_planner (reply_of [(''1'', [2]), (''2'', [1])]))
                 report_tasks = (Inr plan, report_tasks) \<and> \<not> is_valid plan)
   \<and> use_ai (scripted_planner (reply_of [(''1'', [2]), (''2'', [1])]))
   \<and> (\<exists>data. client (scripted_planner (reply_of [(''1'', [2]), (''2'', [1])])) report_tasks
                 = Decoded data)"
proof -
  let ?p = "scripted_planner (reply_of [(''1'', [2]), (''2'', [1])])"
  note kw = keyword_fallback_always_valid [OF keyword_planner_ok, of report_tasks]
  from kw have a: "acyclic (edges (fst (analyze_with_keywords keyword_planner report_tasks)))"
    by blast
  from kw keyword_planner_fallback
  have b: "\<exists>plan. generate_plan keyword_planner report_tasks = (Inr plan, report_tasks)
         \<and> is_valid plan"
    by blast
  have c: "\<exists>plan. generate_plan ?p report_tasks = (Inr plan, report_tasks) \<and> \<not> is_valid plan"
    using cyclic_plan by simp
  with keyword_fallback_always_valid [OF scripted_planner_ok, of "reply_of [(''1'', [2]), (''2'', [1])]" report_tasks]
  have d: "use_ai ?p" and e: "\<exists>data. client ?p report_tasks = Decoded data"
    by blast+
  from keyword_planner_ok keyword_planner_fallback a b scripted_planner_ok c d e
  show ?thesis by (intro conjI)
qed

text \<open>
  Claim C10. Planning leaves its inputs as they are: after \<^verbatim>\<open>generate_plan\<close>, and after
  \<^verbatim>\<open>analyze_dependencies\<close> within it, the task list is the list that was passed, so the id,
  name, description, priority, status and creation time of every task are unchanged.
\<close>

theorem planning_leaves_tasks_unchanged:
  "snd (generate_plan self ts) = ts \<and> snd (analyze_dependencies self ts) = ts
   \<and> (\<forall>i<length ts.
        task_id (snd (generate_plan self ts) ! i) = task_id (ts ! i) \<and>
        name (snd (generate_plan self ts) ! i) = name (ts ! i) \<and>
        description (snd (generate_plan self ts) ! i) = description (ts ! i) \<and>
        priority (snd (generate_plan self ts) ! i) = priority (ts ! i) \<and>
        status (snd (generate_plan self ts) ! i) = status (ts ! i) \<and>
        created_at (snd (generate_plan self ts) ! i) = created_at (ts ! i))"
  by (simp add: generate_plan_frame analyze_dependencies_frame)

theorem planning_leaves_tasks_unchanged_witness:
  "snd (generate_plan keyword_planner report_tasks) = report_tasks
   \<and> snd (analyze_dependencies keyword_planner report_tasks) = report_tasks
   \<and> 1 < length report_tasks
   \<and> status (snd (generate_plan keyword_planner report_tasks) ! 1) = PENDING
   \<and> name (snd (generate_plan keyword_planner report_tasks) ! 1) = ''Write report''"
proof -
  have len: "1 < length report_tasks" by (simp add: report_tasks_def)
  note frame = planning_leaves_tasks_unchanged [of keyword_planner report_tasks]
  from frame have a: "snd (generate_plan keyword_planner report_tasks) = report_tasks"
    by (rule conjunct1)
  from frame have b: "snd (analyze_dependencies keyword_planner report_tasks) = report_tasks"
    by (rule conjunct1 [OF conjunct2])
  have c: "status (snd (generate_plan keyword_planner report_tasks) ! 1) = PENDING"
    and d: "name (snd (generate_plan keyword_planner report_tasks) ! 1) = ''Write report''"
    unfolding a by (simp_all add: report_tasks_def new_task_def)
  from a b len c d show ?thesis by (intro conjI)
qed

end
